theory Spec2Isabelle
  imports Complex_Main "HOL-Library.AList"
begin

section \<open>Python values, dictionaries and exceptions\<close>

text \<open>
  The orchestrator \<open>BaseAlg\<close> (algorithm.py) and the criterion registry (metrics.py) are
  embedded as HOL functions. A Python \<open>dict\<close> keeps insertion order, so it is an association
  list with distinct keys: \<open>map_of\<close> reads it, \<open>AList.update\<close> is \<open>d[k] = v\<close> (in place when
  the key exists, appended otherwise) and \<open>AList.delete\<close> removes a key. Every exception the
  source can raise is a constructor of \<open>error\<close>.
\<close>

datatype error =
    KeyError string
  | IndexError
  | AttributeError string
  | TypeError string
  | UnboundLocalError string
  | FileNotFoundError string
  | AssertionError string
  | RuntimeError string

text \<open>\<open>d[k]\<close>: the value, or KeyError.\<close>

definition getitem :: "(string \<times> 'a) list \<Rightarrow> string \<Rightarrow> error + 'a" where
  "getitem d k = (case map_of d k of None \<Rightarrow> Inl (KeyError k) | Some v \<Rightarrow> Inr v)"

text \<open>\<open>sub in s\<close> on strings: \<open>sub\<close> occurs somewhere in \<open>s\<close>, not only at its start.\<close>

fun contains :: "string \<Rightarrow> string \<Rightarrow> bool" where
  "contains sub [] = (sub = [])"
| "contains sub (c # cs) = (take (length sub) (c # cs) = sub \<or> contains sub cs)"

section \<open>Checkpoints\<close>

text \<open>
  A state dict maps names to opaque payloads (tensors for a module, whatever the optimizer
  or scheduler serialises otherwise). The persisted record \<open>states\<close> maps \<open>iter\<close> to the
  iteration and \<open>module_<name>\<close>, \<open>optim_<name>\<close>, \<open>sched_<name>\<close> to state dicts.
\<close>

type_synonym 'v state_dict = "(string \<times> 'v) list"

datatype 'v ckp_val = IterVal int | StateDict "'v state_dict"

type_synonym 'v states = "(string \<times> 'v ckp_val) list"

type_synonym 'v fs = "string \<rightharpoonup> 'v states"

text \<open>
  The orchestrator's bundles. A bundle is \<open>None\<close> while its attribute has not been assigned
  (\<open>self.model\<close>, \<open>self.optim_lst\<close>, \<open>self.sched_lst\<close> are set by the \<open>create_*\<close> methods only).
  The components themselves are handles of the framework, of type \<open>'h\<close>.
\<close>

record 'h alg =
  module_lst :: "(string \<times> 'h) list option"
  optim_lst :: "(string \<times> 'h) list option"
  sched_lst :: "(string \<times> 'h) list option"

subsection \<open>Key renaming (load_state, module branch)\<close>

text \<open>
  \<open>for k, v in state_dict.items(): new_state_dict[k[7:]] = v\<close> and
  \<open>new_state_dict['module.' + k] = v\<close>, into a fresh OrderedDict.
\<close>

definition remove_module :: "'v state_dict \<Rightarrow> 'v state_dict" where
  "remove_module sd = foldl (\<lambda>new (k, v). AList.update (drop 7 k) v new) [] sd"

definition add_module :: "'v state_dict \<Rightarrow> 'v state_dict" where
  "add_module sd = foldl (\<lambda>new (k, v). AList.update (''module.'' @ k) v new) [] sd"

text \<open>
  The dict handed to the live module's \<open>load_state_dict\<close>. \<open>list(state_dict.keys())[0]\<close>
  raises IndexError on an empty state dict, whatever \<open>if_dist\<close> is: it is the first operand
  of the first test.
\<close>

definition reconcile :: "bool \<Rightarrow> 'v state_dict \<Rightarrow> error + 'v state_dict" where
  "reconcile if_dist sd =
     (case sd of
        [] \<Rightarrow> Inl IndexError
      | (k0, _) # _ \<Rightarrow>
          if contains ''module.'' k0 \<and> if_dist then Inr (remove_module sd)
          else if \<not> contains ''module.'' k0 \<and> if_dist then Inr (add_module sd)
          else Inr sd)"

subsection \<open>load_state\<close>

text \<open>
  \<open>lsd h x\<close> is the framework's \<open>h.load_state_dict(x)\<close>: the handle after the load, or the
  exception it raises. One bundle entry is loaded by \<open>load_into\<close>: the bundle attribute,
  then the entry (KeyError), then the call.
\<close>

definition load_into ::
  "('h \<Rightarrow> 'v ckp_val \<Rightarrow> error + 'h) \<Rightarrow> string \<Rightarrow> (string \<times> 'h) list option \<Rightarrow> string
     \<Rightarrow> 'v ckp_val \<Rightarrow> error + (string \<times> 'h) list" where
  "load_into lsd attr bundle item_name x =
     (case bundle of
        None \<Rightarrow> Inl (AttributeError attr)
      | Some b \<Rightarrow>
          (case map_of b item_name of
             None \<Rightarrow> Inl (KeyError item_name)
           | Some h \<Rightarrow>
               (case lsd h x of
                  Inl e \<Rightarrow> Inl e
                | Inr h' \<Rightarrow> Inr (AList.update item_name h' b))))"

text \<open>The body of the loop over \<open>load_item_lst\<close>, for one item.\<close>

definition load_item ::
  "('h \<Rightarrow> 'v ckp_val \<Rightarrow> error + 'h) \<Rightarrow> 'v states \<Rightarrow> bool \<Rightarrow> 'h alg \<Rightarrow> string
     \<Rightarrow> error + 'h alg" where
  "load_item lsd states if_dist a item =
     (case getitem states item of
        Inl e \<Rightarrow> Inl e
      | Inr state_dict \<Rightarrow>
          if contains ''module_'' item then
            (case state_dict of
               IterVal _ \<Rightarrow> Inl (AttributeError ''keys'')
             | StateDict sd \<Rightarrow>
                 (case reconcile if_dist sd of
                    Inl e \<Rightarrow> Inl e
                  | Inr new_sd \<Rightarrow>
                      (case load_into lsd ''model'' (module_lst a) (drop 7 item) (StateDict new_sd) of
                         Inl e \<Rightarrow> Inl e
                       | Inr b \<Rightarrow> Inr (a\<lparr>module_lst := Some b\<rparr>))))
          else if contains ''optim_'' item then
            (case load_into lsd ''optim_lst'' (optim_lst a) (drop 6 item) state_dict of
               Inl e \<Rightarrow> Inl e
             | Inr b \<Rightarrow> Inr (a\<lparr>optim_lst := Some b\<rparr>))
          else if contains ''sched_'' item then
            (case load_into lsd ''sched_lst'' (sched_lst a) (drop 6 item) state_dict of
               Inl e \<Rightarrow> Inl e
             | Inr b \<Rightarrow> Inr (a\<lparr>sched_lst := Some b\<rparr>))
          else Inr a)"

text \<open>
  The loop. The components are mutated in place, so when an item raises, the items before
  it stay loaded: the result carries the orchestrator as it is at that moment.
\<close>

fun load_items ::
  "('h \<Rightarrow> 'v ckp_val \<Rightarrow> error + 'h) \<Rightarrow> 'v states \<Rightarrow> bool \<Rightarrow> 'h alg \<Rightarrow> string list
     \<Rightarrow> 'h alg \<times> error option" where
  "load_items lsd states if_dist a [] = (a, None)"
| "load_items lsd states if_dist a (item # items) =
     (case load_item lsd states if_dist a item of
        Inl e \<Rightarrow> (a, Some e)
      | Inr a' \<Rightarrow> load_items lsd states if_dist a' items)"

text \<open>\<open>torch.load\<close> raises when no file is at the path; \<open>states['iter']\<close> is read last.\<close>

definition load_state ::
  "('h \<Rightarrow> 'v ckp_val \<Rightarrow> error + 'h) \<Rightarrow> 'v fs \<Rightarrow> 'h alg \<Rightarrow> string \<Rightarrow> string list \<Rightarrow> bool
     \<Rightarrow> 'h alg \<times> (error + 'v ckp_val)" where
  "load_state lsd fs a ckp_load_path load_item_lst if_dist =
     (case fs ckp_load_path of
        None \<Rightarrow> (a, Inl (FileNotFoundError ckp_load_path))
      | Some states \<Rightarrow>
          (case load_items lsd states if_dist a load_item_lst of
             (a', Some e) \<Rightarrow> (a', Inl e)
           | (a', None) \<Rightarrow> (a', getitem states ''iter'')))"

subsection \<open>save_state\<close>

text \<open>
  The only file operation of the class is \<open>torch.save(states, ckp_save_path)\<close>, so the
  I/O a call performs is a list of such writes, and a write puts the record at the path.
\<close>

datatype 'v io = TorchSave string "'v states"

fun io_path :: "'v io \<Rightarrow> string" where
  "io_path (TorchSave f obj) = f"

fun exec_io :: "'v fs \<Rightarrow> 'v io \<Rightarrow> 'v fs" where
  "exec_io fs (TorchSave f obj) = fs(f \<mapsto> obj)"

definition run_io :: "'v fs \<Rightarrow> 'v io list \<Rightarrow> 'v fs" where
  "run_io fs ops = foldl exec_io fs ops"

text \<open>
  \<open>for item in bundle: states[f'<prefix>{item}'] = bundle[item].state_dict()\<close>, where
  \<open>sd_of h\<close> is the framework's \<open>h.state_dict()\<close>.
\<close>

definition put_states ::
  "('h \<Rightarrow> 'v state_dict) \<Rightarrow> string \<Rightarrow> (string \<times> 'h) list \<Rightarrow> 'v states \<Rightarrow> 'v states" where
  "put_states sd_of pre bundle states =
     foldl (\<lambda>st (item, h). AList.update (pre @ item) (StateDict (sd_of h)) st) states bundle"

definition save_state ::
  "('h \<Rightarrow> 'v state_dict) \<Rightarrow> 'h alg \<Rightarrow> string \<Rightarrow> int \<Rightarrow> bool \<Rightarrow> error + 'v io list" where
  "save_state sd_of a ckp_save_path iter if_sched =
     (case module_lst a of
        None \<Rightarrow> Inl (AttributeError ''model'')
      | Some ms \<Rightarrow>
          (case optim_lst a of
             None \<Rightarrow> Inl (AttributeError ''optim_lst'')
           | Some os \<Rightarrow>
               (let states = put_states sd_of ''optim_'' os
                               (put_states sd_of ''module_'' ms [(''iter'', IterVal iter)])
                in if if_sched then
                     (case sched_lst a of
                        None \<Rightarrow> Inl (AttributeError ''sched_lst'')
                      | Some ss \<Rightarrow>
                          Inr [TorchSave ckp_save_path (put_states sd_of ''sched_'' ss states)])
                   else Inr [TorchSave ckp_save_path states])))"

subsection \<open>update_lr\<close>

text \<open>
  \<open>for sched_item in self.sched_lst: self.sched_lst[sched_item].step()\<close>, where \<open>step h\<close> is
  the scheduler after the framework's \<open>h.step()\<close>.
\<close>

fun step_all :: "('h \<Rightarrow> 'h) \<Rightarrow> string list \<Rightarrow> (string \<times> 'h) list \<Rightarrow> (string \<times> 'h) list" where
  "step_all step [] b = b"
| "step_all step (sched_item # rest) b =
     step_all step rest
       (case map_of b sched_item of None \<Rightarrow> b | Some h \<Rightarrow> AList.update sched_item (step h) b)"

definition update_lr :: "('h \<Rightarrow> 'h) \<Rightarrow> 'h alg \<Rightarrow> error + 'h alg" where
  "update_lr step a =
     (case sched_lst a of
        None \<Rightarrow> Inl (AttributeError ''sched_lst'')
      | Some ss \<Rightarrow> Inr (a\<lparr>sched_lst := Some (step_all step (map fst ss) ss)\<rparr>))"

text \<open>\<open>k\<close> calls in a row; an exception ends the run.\<close>

fun update_lr_times :: "('h \<Rightarrow> 'h) \<Rightarrow> nat \<Rightarrow> 'h alg \<Rightarrow> error + 'h alg" where
  "update_lr_times step 0 a = Inr a"
| "update_lr_times step (Suc k) a =
     (case update_lr step a of Inl e \<Rightarrow> Inl e | Inr a' \<Rightarrow> update_lr_times step k a')"

subsection \<open>A framework component for running the model\<close>

text \<open>
  To run \<open>load_state\<close> and \<open>save_state\<close> on concrete inputs, a component is represented by
  its own state dict: \<open>state_dict()\<close> returns it, and \<open>load_state_dict\<close> is the framework's
  strict load, which raises when a key offered is unexpected or a key of the component is
  missing, and otherwise replaces the values.
\<close>

definition strict_load_state_dict :: "'v state_dict \<Rightarrow> 'v ckp_val \<Rightarrow> error + 'v state_dict" where
  "strict_load_state_dict h x =
     (case x of
        IterVal _ \<Rightarrow> Inl (TypeError ''state_dict'')
      | StateDict sd \<Rightarrow>
          if set (map fst sd) \<subseteq> set (map fst h) \<and> set (map fst h) \<subseteq> set (map fst sd)
          then Inr (map (\<lambda>(k, v). (k, case map_of sd k of None \<Rightarrow> v | Some v' \<Rightarrow> v')) h)
          else Inl (RuntimeError ''Error(s) in loading state_dict''))"

section \<open>Optimizers\<close>

text \<open>
  The optimizer options: \<open>opts_dict\<close> maps \<open>TTUR\<close> to the two-time-scale section
  \<open>{if_ttur, lr}\<close> and every component name to \<open>{type, opts}\<close>, where \<open>opts\<close> is the keyword
  dict passed to the optimizer. Learning rates are Python floats, read here as reals.
\<close>

datatype pyval = PFloat real | PInt int | PStr string | PBool bool

record ttur_opts =
  if_ttur :: bool
  lr :: "real option"

record optim_opts =
  type :: string
  opts :: "(string \<times> pyval) list"

datatype cfg = TTUR ttur_opts | Optim optim_opts

type_synonym opts_dict = "(string \<times> cfg) list"

text \<open>
  The binding of the local \<open>new_lr\<close> after the \<open>if/elif\<close> of one iteration: \<open>None\<close> while the
  name is unbound. A component that is neither \<open>gen\<close> nor \<open>dis\<close> leaves it as it was.
\<close>

definition bind_new_lr :: "real \<Rightarrow> string \<Rightarrow> real option \<Rightarrow> real option" where
  "bind_new_lr base optim_item new_lr =
     (if optim_item = ''gen'' then Some (base / 2)
      else if optim_item = ''dis'' then Some (base * 2)
      else new_lr)"

text \<open>
  \<open>opts_dict[optim_item]['opts']['lr'] = new_lr\<close>: the right-hand side is evaluated first,
  so an unbound \<open>new_lr\<close> raises before the dict is touched.
\<close>

definition set_lr :: "real option \<Rightarrow> string \<Rightarrow> opts_dict \<Rightarrow> error + opts_dict" where
  "set_lr new_lr optim_item d =
     (case new_lr of
        None \<Rightarrow> Inl (UnboundLocalError ''new_lr'')
      | Some r \<Rightarrow>
          (case map_of d optim_item of
             None \<Rightarrow> Inl (KeyError optim_item)
           | Some (TTUR t) \<Rightarrow> Inl (KeyError ''opts'')
           | Some (Optim c) \<Rightarrow>
               Inr (AList.update optim_item
                      (Optim (c\<lparr>opts := AList.update ''lr'' (PFloat r) (opts c)\<rparr>)) d)))"

text \<open>
  \<open>return_optimizer(name=..., params=..., opts=...)\<close> is defined in the package's
  \<open>deep_learning\<close> module; it is the parameter \<open>return_optimizer\<close> here.
\<close>

definition build_optim ::
  "(string \<Rightarrow> 'p \<Rightarrow> (string \<times> pyval) list \<Rightarrow> error + 'h) \<Rightarrow> (string \<times> 'p) list \<Rightarrow> opts_dict
     \<Rightarrow> string \<Rightarrow> error + 'h" where
  "build_optim return_optimizer params_lst d optim_item =
     (case map_of d optim_item of
        None \<Rightarrow> Inl (KeyError optim_item)
      | Some (TTUR t) \<Rightarrow> Inl (KeyError ''type'')
      | Some (Optim c) \<Rightarrow>
          (case getitem params_lst optim_item of
             Inl e \<Rightarrow> Inl e
           | Inr params \<Rightarrow> return_optimizer (type c) params (opts c)))"

text \<open>
  The loop over the component names. \<open>ttur\<close> is \<open>Some lr\<close> when the rule is enabled. The
  state is the binding of \<open>new_lr\<close>, the options (mutated in place) and \<open>self.optim_lst\<close>
  (\<open>optims\<close>);
  when an iteration raises, the result holds the last two as they are at that moment.
\<close>

fun create_loop ::
  "(string \<Rightarrow> 'p \<Rightarrow> (string \<times> pyval) list \<Rightarrow> error + 'h) \<Rightarrow> (string \<times> 'p) list \<Rightarrow> real option
     \<Rightarrow> string list \<Rightarrow> real option \<Rightarrow> opts_dict \<Rightarrow> (string \<times> 'h) list
     \<Rightarrow> (opts_dict \<times> (string \<times> 'h) list) \<times> error option" where
  "create_loop return_optimizer params_lst ttur [] new_lr d optims = ((d, optims), None)"
| "create_loop return_optimizer params_lst ttur (optim_item # rest) new_lr d optims =
     (let new_lr' = (case ttur of None \<Rightarrow> new_lr | Some base \<Rightarrow> bind_new_lr base optim_item new_lr)
      in case (case ttur of None \<Rightarrow> Inr d | Some base \<Rightarrow> set_lr new_lr' optim_item d) of
           Inl e \<Rightarrow> ((d, optims), Some e)
         | Inr d' \<Rightarrow>
             (case build_optim return_optimizer params_lst d' optim_item of
                Inl e \<Rightarrow> ((d', optims), Some e)
              | Inr optim \<Rightarrow>
                  create_loop return_optimizer params_lst ttur rest new_lr' d'
                    (AList.update optim_item optim optims)))"

text \<open>
  \<open>create_optimizer\<close>: pops \<open>TTUR\<close> off the caller's options, reads the base rate when the
  rule is on, and builds one optimizer per remaining entry. The result is the orchestrator,
  the caller's options after the call, and the exception raised if any.
\<close>

definition create_optimizer ::
  "(string \<Rightarrow> 'p \<Rightarrow> (string \<times> pyval) list \<Rightarrow> error + 'h) \<Rightarrow> 'h alg \<Rightarrow> (string \<times> 'p) list
     \<Rightarrow> opts_dict \<Rightarrow> ('h alg \<times> opts_dict) \<times> error option" where
  "create_optimizer return_optimizer a params_lst opts_dict =
     (case map_of opts_dict ''TTUR'' of
        None \<Rightarrow> ((a, opts_dict), Some (KeyError ''TTUR''))
      | Some (Optim c) \<Rightarrow> ((a, AList.delete ''TTUR'' opts_dict), Some (KeyError ''if_ttur''))
      | Some (TTUR opts_ttur) \<Rightarrow>
          (let d = AList.delete ''TTUR'' opts_dict in
           if if_ttur opts_ttur \<and> lr opts_ttur = None then ((a, d), Some (KeyError ''lr''))
           else
             (case create_loop return_optimizer params_lst
                     (if if_ttur opts_ttur then lr opts_ttur else None) (map fst d) None d [] of
                ((d', optims), err) \<Rightarrow> ((a\<lparr>optim_lst := Some optims\<rparr>, d'), err))))"

text \<open>
  The binding of \<open>new_lr\<close> after the iterations over a list of component names, from
  the binding before them.
\<close>

fun new_lr_after :: "real \<Rightarrow> real option \<Rightarrow> string list \<Rightarrow> real option" where
  "new_lr_after base new_lr [] = new_lr"
| "new_lr_after base new_lr (optim_item # rest) =
     new_lr_after base (bind_new_lr base optim_item new_lr) rest"

subsection \<open>A constructor and options for running create_optimizer\<close>

text \<open>
  To run \<open>create_optimizer\<close> on concrete options, \<open>recording_optimizer\<close> stands for
  \<open>return_optimizer\<close>: the optimizer it returns is the record of the arguments it was
  constructed with. \<open>no_alg\<close> is an orchestrator before any bundle is created.
\<close>

definition recording_optimizer ::
  "string \<Rightarrow> nat \<Rightarrow> (string \<times> pyval) list \<Rightarrow> error + (string \<times> nat \<times> (string \<times> pyval) list)" where
  "recording_optimizer name params opts' = Inr (name, params, opts')"

definition no_alg :: "(string \<times> nat \<times> (string \<times> pyval) list) alg" where
  "no_alg = \<lparr>module_lst = None, optim_lst = None, sched_lst = None\<rparr>"

text \<open>Options with the two components \<open>gen\<close> and \<open>dis\<close>, the rule on or off.\<close>

definition example_opts :: "bool \<Rightarrow> opts_dict" where
  "example_opts on =
     [(''TTUR'', TTUR \<lparr>if_ttur = on, lr = Some 4\<rparr>),
      (''gen'', Optim \<lparr>type = ''Adam'', opts = [(''lr'', PFloat 1), (''wd'', PInt 0)]\<rparr>),
      (''dis'', Optim \<lparr>type = ''SGD'', opts = [(''lr'', PFloat 3)]\<rparr>)]"

definition example_built :: "bool \<Rightarrow> (string \<times> string \<times> nat \<times> (string \<times> pyval) list) list" where
  "example_built on =
     (if on then [(''gen'', ''Adam'', 1, [(''lr'', PFloat 2), (''wd'', PInt 0)]),
                  (''dis'', ''SGD'', 2, [(''lr'', PFloat 8)])]
      else [(''gen'', ''Adam'', 1, [(''lr'', PFloat 1), (''wd'', PInt 0)]),
            (''dis'', ''SGD'', 2, [(''lr'', PFloat 3)])])"

text \<open>Options with a third kind of component, \<open>aux\<close>, before or after \<open>gen\<close>.\<close>

definition aux_opts :: "bool \<Rightarrow> opts_dict" where
  "aux_opts aux_first =
     (if aux_first
      then [(''TTUR'', TTUR \<lparr>if_ttur = True, lr = Some 4\<rparr>),
            (''aux'', Optim \<lparr>type = ''SGD'', opts = [(''lr'', PFloat 5)]\<rparr>),
            (''gen'', Optim \<lparr>type = ''Adam'', opts = [(''lr'', PFloat 1)]\<rparr>)]
      else [(''TTUR'', TTUR \<lparr>if_ttur = True, lr = Some 4\<rparr>),
            (''gen'', Optim \<lparr>type = ''Adam'', opts = [(''lr'', PFloat 1)]\<rparr>),
            (''aux'', Optim \<lparr>type = ''SGD'', opts = [(''lr'', PFloat 5)]\<rparr>)])"

definition aux_built :: "(string \<times> string \<times> nat \<times> (string \<times> pyval) list) list" where
  "aux_built = [(''gen'', ''Adam'', 1, [(''lr'', PFloat 2)]), (''aux'', ''SGD'', 3, [(''lr'', PFloat 2)])]"

text \<open>Options with \<open>aux\<close> first and \<open>aux2\<close> last, with or without \<open>gen\<close> between them.\<close>

definition mid_opts :: "bool \<Rightarrow> opts_dict" where
  "mid_opts with_gen =
     (if with_gen
      then [(''TTUR'', TTUR \<lparr>if_ttur = True, lr = Some 4\<rparr>),
            (''aux'', Optim \<lparr>type = ''SGD'', opts = [(''lr'', PFloat 5)]\<rparr>),
            (''gen'', Optim \<lparr>type = ''Adam'', opts = [(''lr'', PFloat 1)]\<rparr>),
            (''aux2'', Optim \<lparr>type = ''SGD'', opts = [(''lr'', PFloat 6)]\<rparr>)]
      else [(''TTUR'', TTUR \<lparr>if_ttur = True, lr = Some 4\<rparr>),
            (''aux'', Optim \<lparr>type = ''SGD'', opts = [(''lr'', PFloat 5)]\<rparr>),
            (''aux2'', Optim \<lparr>type = ''SGD'', opts = [(''lr'', PFloat 6)]\<rparr>)])"

section \<open>Criteria (metrics.py)\<close>

definition crit_lst :: "string list" where
  "crit_lst = [''PSNR'', ''LPIPS'']"

text \<open>
  The two criterion classes as objects: \<open>lsb\<close> is the lower-is-better flag set by the
  constructor. An LPIPS object is otherwise determined by its constructor arguments.
\<close>

datatype crit =
    PSNR (lsb: bool)
  | LPIPS (net: pyval) (if_spatial: pyval) (if_cuda: pyval) (lsb: bool)

text \<open>\<open>PSNR(**opts)\<close>: the constructor takes no argument, so any keyword is a TypeError.\<close>

definition new_PSNR :: "(string \<times> pyval) list \<Rightarrow> error + crit" where
  "new_PSNR kwargs = (case kwargs of [] \<Rightarrow> Inr (PSNR False) | (k, _) # _ \<Rightarrow> Inl (TypeError k))"

text \<open>\<open>LPIPS(net='alex', if_spatial=False, if_cuda=True)\<close>.\<close>

definition kwarg :: "(string \<times> pyval) list \<Rightarrow> string \<Rightarrow> pyval \<Rightarrow> pyval" where
  "kwarg kwargs k dflt = (case map_of kwargs k of None \<Rightarrow> dflt | Some v \<Rightarrow> v)"

definition new_LPIPS :: "(string \<times> pyval) list \<Rightarrow> error + crit" where
  "new_LPIPS kwargs =
     (case filter (\<lambda>(k, _). k \<notin> set [''net'', ''if_spatial'', ''if_cuda'']) kwargs of
        (k, _) # _ \<Rightarrow> Inl (TypeError k)
      | [] \<Rightarrow>
          Inr (LPIPS (kwarg kwargs ''net'' (PStr ''alex'')) (kwarg kwargs ''if_spatial'' (PBool False))
                 (kwarg kwargs ''if_cuda'' (PBool True)) True))"

text \<open>
  \<open>globals()[name]\<close> is one of the two classes once the assertion has passed; the
  argument \<open>opts\<close> is \<open>opts'\<close> here, \<open>None\<close> when absent.
\<close>

definition return_crit_func :: "string \<Rightarrow> (string \<times> pyval) list option \<Rightarrow> error + crit" where
  "return_crit_func name opts' =
     (if name \<notin> set crit_lst then Inl (AssertionError ''NOT SUPPORTED YET!'')
      else
        (let crit_func_cls = (if name = ''PSNR'' then new_PSNR else new_LPIPS) in
         case opts' of Some kwargs \<Rightarrow> crit_func_cls kwargs | None \<Rightarrow> crit_func_cls []))"

subsection \<open>LPIPS: preprocessing and forward\<close>

text \<open>
  An input is an array of rank 3 with a dtype: \<open>(H, W, BGR)\<close> for an image loaded by cv2,
  \<open>(RGB, H, W)\<close> for a tensor. Element arithmetic is read over the reals (the source
  computes in floating point). The result of preprocessing is of rank 4 for an image,
  \<open>(1, C, H, W)\<close>, and of the input's rank for a tensor.
\<close>

datatype dtype = UInt8 | Int64 | Float32 | Float64

record ndarray =
  dtype :: dtype
  data :: "real list list list"

datatype tensor = T3 "real list list list" | T4 "real list list list list"

text \<open>The size of the last axis.\<close>

definition channels :: "real list list list \<Rightarrow> nat" where
  "channels im = (case im of (px # _) # _ \<Rightarrow> length px | _ \<Rightarrow> 0)"

text \<open>\<open>im[..., np.newaxis].transpose(3, 2, 0, 1)\<close>: \<open>out[0][c][h][w] = im[h][w][c]\<close>.\<close>

definition to_bchw :: "real list list list \<Rightarrow> real list list list list" where
  "to_bchw im = [map (\<lambda>c. map (\<lambda>row. map (\<lambda>px. px ! c) row) im) [0..<channels im]]"

definition preprocess :: "ndarray \<Rightarrow> string \<Rightarrow> tensor option" where
  "preprocess inp mode =
     (if mode = ''im'' then
        (let im = map (map rev) (data inp);
             im = map (map (map (\<lambda>v. v / (255 / 2) - 1))) im
         in Some (T4 (to_bchw im)))
      else if mode = ''tensor'' then
        Some (T3 (map (map (map (\<lambda>v. v * 2 - 1))) (data inp)))
      else None)"

text \<open>
  \<open>.item()\<close> returns the single element of the kernel's output and raises when there is
  not exactly one (a spatial map). The kernel \<open>lpips_fn\<close> is the external network.
\<close>

definition item :: "real list \<Rightarrow> error + real" where
  "item xs = (case xs of [x] \<Rightarrow> Inr x | _ \<Rightarrow> Inl (RuntimeError ''item''))"

definition LPIPS_forward ::
  "(tensor \<Rightarrow> tensor \<Rightarrow> real list) \<Rightarrow> ndarray \<Rightarrow> ndarray \<Rightarrow> error + real" where
  "LPIPS_forward lpips_fn ref im =
     (let mode = (if dtype ref = UInt8 then ''im'' else ''tensor'') in
      case (preprocess ref mode, preprocess im mode) of
        (Some ref', Some im') \<Rightarrow> item (lpips_fn ref' im')
      | _ \<Rightarrow> Inl (TypeError ''NoneType''))"

subsection \<open>A kernel and inputs for running forward\<close>

text \<open>
  To run \<open>forward\<close> on concrete inputs, \<open>probe_kernel\<close> stands for the network: its
  score is the first element of the second tensor it is handed. \<open>bgr_pixel\<close> is an image
  of one pixel as cv2 loads it, \<open>half_tensor\<close> a float tensor of one element.
\<close>

definition first_value :: "tensor \<Rightarrow> real" where
  "first_value t = (case t of T3 d \<Rightarrow> hd (hd (hd d)) | T4 d \<Rightarrow> hd (hd (hd (hd d))))"

definition probe_kernel :: "tensor \<Rightarrow> tensor \<Rightarrow> real list" where
  "probe_kernel ref' im' = [first_value im']"

definition bgr_pixel :: ndarray where
  "bgr_pixel = \<lparr>dtype = UInt8, data = [[[255, 0, 51]]]\<rparr>"

definition half_tensor :: ndarray where
  "half_tensor = \<lparr>dtype = Float32, data = [[[1 / 2]]]\<rparr>"

section \<open>Properties\<close>

subsection \<open>Strings and dictionaries\<close>

text \<open>\<open>contains\<close> is the substring test.\<close>

lemma contains_iff: "contains sub s \<longleftrightarrow> (\<exists>p q. s = p @ sub @ q)"
proof (induction s)
  case Nil
  then show ?case by auto
next
  case (Cons c cs)
  have "take (length sub) (c # cs) = sub \<longleftrightarrow> (\<exists>q. c # cs = sub @ q)"
    by (metis append_eq_conv_conj append_take_drop_id)
  moreover have "(\<exists>p q. c # cs = p @ sub @ q) \<longleftrightarrow> (\<exists>q. c # cs = sub @ q) \<or> (\<exists>p q. cs = p @ sub @ q)"
  proof
    assume "\<exists>p q. c # cs = p @ sub @ q"
    then obtain p q where pq: "c # cs = p @ sub @ q" by blast
    show "(\<exists>q. c # cs = sub @ q) \<or> (\<exists>p q. cs = p @ sub @ q)"
    proof (cases p)
      case Nil
      with pq show ?thesis by auto
    next
      case (Cons a p')
      with pq have "cs = p' @ sub @ q" by simp
      then show ?thesis by blast
    qed
  next
    assume "(\<exists>q. c # cs = sub @ q) \<or> (\<exists>p q. cs = p @ sub @ q)"
    then show "\<exists>p q. c # cs = p @ sub @ q"
    proof
      assume "\<exists>q. c # cs = sub @ q"
      then obtain q where "c # cs = [] @ sub @ q" by auto
      then show ?thesis by blast
    next
      assume "\<exists>p q. cs = p @ sub @ q"
      then obtain p q where "c # cs = (c # p) @ sub @ q" by auto
      then show ?thesis by blast
    qed
  qed
  ultimately show ?case using Cons.IH by simp
qed

text \<open>Assigning a new key appends; keys in front of the one assigned are left alone.\<close>

lemma update_fresh: "k \<notin> fst ` set al \<Longrightarrow> AList.update k v al = al @ [(k, v)]"
  by (induction al) auto

lemma update_append_skip:
  "k \<notin> fst ` set ys \<Longrightarrow> AList.update k v (ys @ zs) = ys @ AList.update k v zs"
  by (induction ys) auto

lemma map_of_append_skip: "k \<notin> fst ` set ys \<Longrightarrow> map_of (ys @ zs) k = map_of zs k"
  by (induction ys) auto

lemma keys_map_values: "map fst (map (\<lambda>(n, s). (n, f s)) ss) = map fst ss"
  by (induction ss) auto

subsection \<open>Stepping the schedulers\<close>

text \<open>On a dict (distinct keys), the loop of \<open>update_lr\<close> steps every scheduler once.\<close>

lemma step_all_append:
  "distinct (map fst (ys @ xs)) \<Longrightarrow>
   step_all step (map fst xs) (ys @ xs) = ys @ map (\<lambda>(n, s). (n, step s)) xs"
proof (induction xs arbitrary: ys)
  case Nil
  then show ?case by simp
next
  case (Cons x xs)
  obtain n s where x: "x = (n, s)" by (cases x)
  from Cons.prems x have fresh: "n \<notin> fst ` set ys" by auto
  have look: "map_of (ys @ x # xs) n = Some s"
    using fresh x map_of_append_skip [of n ys "x # xs"] by simp
  have upd: "AList.update n (step s) (ys @ x # xs) = (ys @ [(n, step s)]) @ xs"
    using fresh x by (simp add: update_append_skip)
  have d: "distinct (map fst ((ys @ [(n, step s)]) @ xs))"
    using Cons.prems x by auto
  show ?case
    using Cons.IH [OF d] look upd x by simp
qed

lemma step_all_map:
  "distinct (map fst ss) \<Longrightarrow> step_all step (map fst ss) ss = map (\<lambda>(n, s). (n, step s)) ss"
  using step_all_append [of "[]" ss step] by simp

lemma update_lr_times_eq:
  "sched_lst a = Some ss \<Longrightarrow> distinct (map fst ss) \<Longrightarrow>
   update_lr_times step k a = Inr (a\<lparr>sched_lst := Some (map (\<lambda>(n, s). (n, (step ^^ k) s)) ss)\<rparr>)"
proof (induction k arbitrary: a ss)
  case 0
  then show ?case by (simp add: case_prod_unfold)
next
  case (Suc k)
  let ?ss' = "map (\<lambda>(n, s). (n, step s)) ss"
  let ?a' = "a\<lparr>sched_lst := Some ?ss'\<rparr>"
  have u: "update_lr step a = Inr ?a'"
    using Suc.prems by (simp add: update_lr_def step_all_map)
  have d: "distinct (map fst ?ss')"
  proof -
    show ?thesis using Suc.prems(2) by (simp only: keys_map_values)
  qed
  have "update_lr_times step k ?a' = Inr (?a'\<lparr>sched_lst := Some (map (\<lambda>(n, s). (n, (step ^^ k) s)) ?ss')\<rparr>)"
    by (rule Suc.IH [OF _ d]) simp
  then show ?case
    using u by (simp add: case_prod_unfold comp_def funpow_swap1)
qed

text \<open>
  C9: calling \<open>update_lr\<close> \<open>k\<close> times steps every owned scheduler exactly \<open>k\<close> times and
  touches nothing else, so a step counter that \<open>step\<close> increments by one has advanced by
  exactly \<open>k\<close>; with an empty scheduler dict a call changes nothing and raises nothing.
\<close>

theorem update_lr_steps_each_scheduler_k_times:
  assumes "sched_lst a = Some ss" and "distinct (map fst ss)"
  shows "update_lr_times step k a
           = Inr (a\<lparr>sched_lst := Some (map (\<lambda>(n, s). (n, (step ^^ k) s)) ss)\<rparr>)
         \<and> ((\<forall>s. counter (step s) = counter s + 1) \<longrightarrow>
              (\<forall>n s. map_of ss n = Some s \<longrightarrow>
                 (\<exists>s'. map_of (map (\<lambda>(n, s). (n, (step ^^ k) s)) ss) n = Some s'
                       \<and> counter s' = counter s + k)))
         \<and> (ss = [] \<longrightarrow> update_lr step a = Inr a)"
proof -
  let ?ss' = "map (\<lambda>(n, s). (n, (step ^^ k) s)) ss"
  have run: "update_lr_times step k a = Inr (a\<lparr>sched_lst := Some ?ss'\<rparr>)"
    using assms by (rule update_lr_times_eq)
  have look: "map_of ?ss' n = map_option (step ^^ k) (map_of ss n)" for n
    by (induction ss) auto
  have cnt: "counter ((step ^^ k) s) = counter s + k"
    if "\<forall>s. counter (step s) = counter s + 1" for s
    using that by (induction k) auto
  have empty: "ss = [] \<longrightarrow> update_lr step a = Inr a"
    using assms(1) by (auto simp: update_lr_def)
  show ?thesis
    using run look cnt empty by auto
qed

theorem update_lr_steps_each_scheduler_k_times_witness:
  "update_lr_times Suc 3
     \<lparr>module_lst = None, optim_lst = None, sched_lst = Some [(''gen'', 0::nat), (''dis'', 10)]\<rparr>
     = Inr \<lparr>module_lst = None, optim_lst = None, sched_lst = Some [(''gen'', 3), (''dis'', 13)]\<rparr>
   \<and> (\<exists>s'. map_of (map (\<lambda>(n, s). (n, (Suc ^^ 3) s)) [(''gen'', 0::nat), (''dis'', 10)]) ''dis''
              = Some s' \<and> s' = 10 + 3)
   \<and> update_lr Suc \<lparr>module_lst = None, optim_lst = None, sched_lst = Some []\<rparr>
     = Inr \<lparr>module_lst = None, optim_lst = None, sched_lst = Some []\<rparr>"
  using update_lr_steps_each_scheduler_k_times
      [of "\<lparr>module_lst = None, optim_lst = None, sched_lst = Some [(''gen'', 0::nat), (''dis'', 10)]\<rparr>"
          "[(''gen'', 0::nat), (''dis'', 10)]" Suc 3 id]
    update_lr_steps_each_scheduler_k_times
      [of "\<lparr>module_lst = None, optim_lst = None, sched_lst = Some []\<rparr>" "[]" Suc 0 id]
  by (simp add: numeral_3_eq_3)

subsection \<open>The criterion registry\<close>

text \<open>
  C7: \<open>return_crit_func\<close> fails (the assertion "NOT SUPPORTED YET!") for every name outside
  the known list, and for a known name without options it succeeds with the defaults and
  returns an object whose lower-is-better flag is false for PSNR and true for LPIPS.
\<close>

theorem return_crit_func_registry:
  "(name \<notin> set crit_lst \<longrightarrow>
      return_crit_func name opts' = Inl (AssertionError ''NOT SUPPORTED YET!''))
   \<and> (name \<in> set crit_lst \<longrightarrow>
      (\<exists>c. return_crit_func name None = Inr c \<and> lsb c = (name = ''LPIPS'')))
   \<and> return_crit_func ''PSNR'' None = Inr (PSNR False)
   \<and> return_crit_func ''LPIPS'' None
       = Inr (LPIPS (PStr ''alex'') (PBool False) (PBool True) True)"
  by (auto simp: return_crit_func_def crit_lst_def new_PSNR_def new_LPIPS_def kwarg_def)

theorem return_crit_func_registry_witness:
  "''NotARealLoss'' \<notin> set crit_lst
   \<and> return_crit_func ''NotARealLoss'' None = Inl (AssertionError ''NOT SUPPORTED YET!'')
   \<and> ''PSNR'' \<in> set crit_lst
   \<and> (\<exists>c. return_crit_func ''PSNR'' None = Inr c \<and> \<not> lsb c)
   \<and> ''LPIPS'' \<in> set crit_lst
   \<and> (\<exists>c. return_crit_func ''LPIPS'' None = Inr c \<and> lsb c)"
  using return_crit_func_registry [of "''NotARealLoss''" None]
    return_crit_func_registry [of "''PSNR''" None]
    return_crit_func_registry [of "''LPIPS''" None]
  by (simp add: crit_lst_def)

subsection \<open>Loading module states\<close>

text \<open>
  C1: a saved module state whose first key carries \<open>module.\<close>, loaded with
  \<open>if_dist = True\<close>, should reach the live module as it is. The first branch of
  \<open>load_state\<close> tests \<open>if_dist\<close> where its comment names single-GPU training, so the
  prefix is stripped from every key instead: the distributed-wrapped module below is
  offered \<open>weight\<close> and \<open>bias\<close> for its keys \<open>module.weight\<close> and \<open>module.bias\<close>, and the
  strict load raises.
\<close>

theorem load_state_prefixed_distributed_renames:
  "reconcile True [(''module.weight'', 1::int), (''module.bias'', 2)]
     = Inr [(''weight'', 1), (''bias'', 2)]
   \<and> load_state strict_load_state_dict
        [''ckp.pt'' \<mapsto> [(''iter'', IterVal 5),
                         (''module_gen'', StateDict [(''module.weight'', 1::int), (''module.bias'', 2)])]]
        \<lparr>module_lst = Some [(''gen'', [(''module.weight'', 0), (''module.bias'', 0)])],
         optim_lst = Some [], sched_lst = Some []\<rparr>
        ''ckp.pt'' [''module_gen''] True
      = (\<lparr>module_lst = Some [(''gen'', [(''module.weight'', 0), (''module.bias'', 0)])],
          optim_lst = Some [], sched_lst = Some []\<rparr>,
         Inl (RuntimeError ''Error(s) in loading state_dict''))"
  by (simp add: load_state_def load_item_def getitem_def reconcile_def remove_module_def
      load_into_def strict_load_state_dict_def)

text \<open>
  C2: a prefixed saved state loaded with \<open>if_dist = False\<close> should have the prefix stripped
  from every key, and an unprefixed one loaded with \<open>if_dist = True\<close> should gain it. The
  second half is \<open>add_module\<close>. The first half fails: with \<open>if_dist = False\<close> both renaming
  branches are skipped, the keys keep \<open>module.\<close>, and the plain module below, whose keys
  are \<open>weight\<close> and \<open>bias\<close>, refuses them.
\<close>

theorem load_state_prefixed_single_keeps_prefix:
  "reconcile False [(''module.weight'', 1::int), (''module.bias'', 2)]
     = Inr [(''module.weight'', 1), (''module.bias'', 2)]
   \<and> load_state strict_load_state_dict
        [''ckp.pt'' \<mapsto> [(''iter'', IterVal 5),
                         (''module_gen'', StateDict [(''module.weight'', 1::int), (''module.bias'', 2)])]]
        \<lparr>module_lst = Some [(''gen'', [(''weight'', 0), (''bias'', 0)])],
         optim_lst = Some [], sched_lst = Some []\<rparr>
        ''ckp.pt'' [''module_gen''] False
      = (\<lparr>module_lst = Some [(''gen'', [(''weight'', 0), (''bias'', 0)])],
          optim_lst = Some [], sched_lst = Some []\<rparr>,
         Inl (RuntimeError ''Error(s) in loading state_dict''))"
  by (simp add: load_state_def load_item_def getitem_def reconcile_def remove_module_def
      load_into_def strict_load_state_dict_def)

subsection \<open>Saving\<close>

text \<open>
  C3: saving with schedulers and loading every item back under the matching \<open>if_dist\<close>
  should restore every component and return the iteration saved. For a
  distributed-wrapped module (keys prefixed, \<open>if_dist = True\<close>) the load strips the prefix
  from the keys it has just saved, the module refuses them, and the call raises instead of
  returning 5.
\<close>

theorem save_then_load_distributed_fails:
  "save_state id
     \<lparr>module_lst = Some [(''gen'', [(''module.weight'', 1::int)])],
      optim_lst = Some [(''gen'', [(''state'', 7)])],
      sched_lst = Some [(''gen'', [(''last_epoch'', 3)])]\<rparr> ''ckp.pt'' 5 True
     = Inr [TorchSave ''ckp.pt''
             [(''iter'', IterVal 5), (''module_gen'', StateDict [(''module.weight'', 1)]),
              (''optim_gen'', StateDict [(''state'', 7)]),
              (''sched_gen'', StateDict [(''last_epoch'', 3)])]]
   \<and> load_state strict_load_state_dict
        (run_io Map.empty
           [TorchSave ''ckp.pt''
             [(''iter'', IterVal 5), (''module_gen'', StateDict [(''module.weight'', 1)]),
              (''optim_gen'', StateDict [(''state'', 7)]),
              (''sched_gen'', StateDict [(''last_epoch'', 3)])]])
        \<lparr>module_lst = Some [(''gen'', [(''module.weight'', 1::int)])],
         optim_lst = Some [(''gen'', [(''state'', 7)])],
         sched_lst = Some [(''gen'', [(''last_epoch'', 3)])]\<rparr>
        ''ckp.pt'' [''module_gen'', ''optim_gen'', ''sched_gen''] True
      = (\<lparr>module_lst = Some [(''gen'', [(''module.weight'', 1::int)])],
          optim_lst = Some [(''gen'', [(''state'', 7)])],
          sched_lst = Some [(''gen'', [(''last_epoch'', 3)])]\<rparr>,
         Inl (RuntimeError ''Error(s) in loading state_dict''))"
  by (simp add: save_state_def put_states_def run_io_def load_state_def load_item_def getitem_def
      reconcile_def remove_module_def load_into_def strict_load_state_dict_def)

text \<open>The entries written for the bundles never touch a key they do not name.\<close>

lemma put_states_other:
  "\<forall>item \<in> fst ` set b. pre @ item \<noteq> k \<Longrightarrow> map_of (put_states sd_of pre b st) k = map_of st k"
  unfolding put_states_def
  by (induction b arbitrary: st) (auto simp: update_conv')

lemma put_states_iter:
  "map_of (put_states sd_of ''module_'' b st) ''iter'' = map_of st ''iter''"
  "map_of (put_states sd_of ''optim_'' b st) ''iter'' = map_of st ''iter''"
  "map_of (put_states sd_of ''sched_'' b st) ''iter'' = map_of st ''iter''"
  by (rule put_states_other, simp)+

text \<open>
  C5, as stated: the record is written to a temporary location and then renamed onto the
  path. The source writes nowhere but the path itself: on the input below every write of
  \<open>save_state\<close> goes to \<open>ckp.pt\<close>.
\<close>

theorem save_state_no_temporary_file:
  "\<exists>ops. save_state id
            \<lparr>module_lst = Some [(''gen'', [(''weight'', 1::int)])], optim_lst = Some [],
             sched_lst = Some []\<rparr> ''ckp.pt'' 5 True = Inr ops
         \<and> \<not> (\<exists>op \<in> set ops. io_path op \<noteq> ''ckp.pt'')"
  by (simp add: save_state_def put_states_def)

text \<open>
  C5, amended: a save that completes is one \<open>torch.save\<close> of the record, holding the
  iteration under \<open>iter\<close>, straight onto the path; afterwards the path holds that record
  whatever it held before, and no other path has changed.
\<close>

theorem save_state_single_direct_write:
  assumes "save_state sd_of a ckp_save_path iter if_sched = Inr ops"
  shows "\<exists>states. ops = [TorchSave ckp_save_path states]
           \<and> map_of states ''iter'' = Some (IterVal iter)
           \<and> run_io fs ops ckp_save_path = Some states
           \<and> (\<forall>f. f \<noteq> ckp_save_path \<longrightarrow> run_io fs ops f = fs f)"
  using assms
  by (auto simp: save_state_def Let_def put_states_iter run_io_def split: option.splits if_splits)

theorem save_state_single_direct_write_witness:
  "save_state id
     \<lparr>module_lst = Some [(''gen'', [(''weight'', 1::int)])], optim_lst = Some [],
      sched_lst = Some []\<rparr> ''ckp.pt'' 5 True
     = Inr [TorchSave ''ckp.pt''
             [(''iter'', IterVal 5), (''module_gen'', StateDict [(''weight'', 1)])]]
   \<and> (\<exists>states. map_of states ''iter'' = Some (IterVal 5)
         \<and> run_io [''ckp.pt'' \<mapsto> [(''iter'', IterVal 1)], ''old.pt'' \<mapsto> []]
              [TorchSave ''ckp.pt''
                 [(''iter'', IterVal 5), (''module_gen'', StateDict [(''weight'', 1::int)])]]
              ''ckp.pt'' = Some states)
   \<and> ''old.pt'' \<noteq> ''ckp.pt''
   \<and> run_io [''ckp.pt'' \<mapsto> [(''iter'', IterVal 1)], ''old.pt'' \<mapsto> []]
        [TorchSave ''ckp.pt''
           [(''iter'', IterVal 5), (''module_gen'', StateDict [(''weight'', 1::int)])]]
        ''old.pt'' = Some []"
  using save_state_single_direct_write
    [of id "\<lparr>module_lst = Some [(''gen'', [(''weight'', 1::int)])], optim_lst = Some [],
             sched_lst = Some []\<rparr>" "''ckp.pt''" 5 True
        "[TorchSave ''ckp.pt''
              [(''iter'', IterVal 5), (''module_gen'', StateDict [(''weight'', 1::int)])]]"
        "[''ckp.pt'' \<mapsto> [(''iter'', IterVal 1)], ''old.pt'' \<mapsto> []]"]
  by (simp add: save_state_def put_states_def)

subsection \<open>Building the optimizers\<close>

lemma new_lr_after_append:
  "new_lr_after base nl (xs @ ys) = new_lr_after base (new_lr_after base nl xs) ys"
  by (induction xs arbitrary: nl) auto

text \<open>Entries the loop does not iterate over are left as they were.\<close>

lemma create_loop_frame:
  assumes "create_loop ro params ttur ks nl d os = ((d', os'), err)" and "n \<notin> set ks"
  shows "map_of d' n = map_of d n \<and> map_of os' n = map_of os n"
  using assms
proof (induction ks arbitrary: nl d os)
  case Nil
  then show ?case by simp
next
  case (Cons k ks)
  from Cons.prems(2) have nk: "n \<noteq> k" and nks: "n \<notin> set ks" by auto
  show ?case
  proof (cases ttur)
    case None
    show ?thesis
    proof (cases "build_optim ro params d k")
      case (Inl e)
      with Cons.prems(1) None show ?thesis by simp
    next
      case (Inr optim)
      with Cons.prems(1) None
      have "create_loop ro params ttur ks nl d (AList.update k optim os) = ((d', os'), err)"
        by simp
      from Cons.IH [OF this nks] nk show ?thesis by (simp add: update_conv')
    qed
  next
    case (Some base)
    let ?nl = "bind_new_lr base k nl"
    show ?thesis
    proof (cases "set_lr ?nl k d")
      case (Inl e)
      with Cons.prems(1) Some show ?thesis by simp
    next
      case (Inr d1)
      then have d1: "map_of d1 n = map_of d n"
        using nk by (auto simp: set_lr_def update_conv' split: option.splits cfg.splits)
      show ?thesis
      proof (cases "build_optim ro params d1 k")
        case (Inl e)
        with Cons.prems(1) Some Inr d1 show ?thesis by simp
      next
        case inr: (Inr optim)
        with Cons.prems(1) Some Inr
        have "create_loop ro params ttur ks ?nl d1 (AList.update k optim os) = ((d', os'), err)"
          by simp
        from Cons.IH [OF this nks] nk d1 show ?thesis by (simp add: update_conv')
      qed
    qed
  qed
qed

text \<open>With the rule on: what an optimizer the loop has built was built from.\<close>

lemma create_loop_built_ttur:
  assumes "create_loop ro params (Some base) ks nl d os = ((d', os'), err)"
    and "distinct ks" and "map_of os n = None" and "map_of os' n = Some optim"
  shows "\<exists>pre post c p r. ks = pre @ n # post \<and> map_of d n = Some (Optim c)
           \<and> map_of params n = Some p \<and> new_lr_after base nl (pre @ [n]) = Some r
           \<and> ro (type c) p (AList.update ''lr'' (PFloat r) (opts c)) = Inr optim
           \<and> map_of d' n = Some (Optim (c\<lparr>opts := AList.update ''lr'' (PFloat r) (opts c)\<rparr>))"
  using assms
proof (induction ks arbitrary: nl d os)
  case Nil
  then show ?case by simp
next
  case (Cons k ks)
  let ?nl = "bind_new_lr base k nl"
  from Cons.prems(2) have dks: "distinct ks" and kks: "k \<notin> set ks" by auto
  show ?case
  proof (cases "set_lr ?nl k d")
    case (Inl e)
    with Cons.prems(1,3,4) show ?thesis by simp
  next
    case (Inr d1)
    then obtain r c where r: "?nl = Some r" and c: "map_of d k = Some (Optim c)"
      and d1: "d1 = AList.update k (Optim (c\<lparr>opts := AList.update ''lr'' (PFloat r) (opts c)\<rparr>)) d"
      by (auto simp: set_lr_def split: option.splits cfg.splits)
    show ?thesis
    proof (cases "build_optim ro params d1 k")
      case (Inl e)
      with Cons.prems(1,3,4) Inr show ?thesis by simp
    next
      case inr: (Inr built)
      with Cons.prems(1) Inr
      have rec: "create_loop ro params (Some base) ks ?nl d1 (AList.update k built os) = ((d', os'), err)"
        by simp
      show ?thesis
      proof (cases "n = k")
        case True
        from create_loop_frame [OF rec] kks True
        have fr: "map_of d' n = map_of d1 n" "map_of os' n = map_of (AList.update k built os) n"
          by auto
        from fr(2) True Cons.prems(4) have ob: "built = optim" by (simp add: update_conv')
        from inr d1 obtain p where p: "map_of params k = Some p"
          and ro: "ro (type c) p (AList.update ''lr'' (PFloat r) (opts c)) = Inr built"
          by (auto simp: build_optim_def getitem_def update_conv' split: option.splits)
        have "k # ks = [] @ n # ks" using True by simp
        moreover have "new_lr_after base nl ([] @ [n]) = Some r" using r True by simp
        moreover have "map_of d' n = Some (Optim (c\<lparr>opts := AList.update ''lr'' (PFloat r) (opts c)\<rparr>))"
          using fr(1) d1 True by (simp add: update_conv')
        ultimately show ?thesis using c p ro ob True by blast
      next
        case False
        then have os1: "map_of (AList.update k built os) n = None"
          using Cons.prems(3) by (simp add: update_conv')
        from Cons.IH [OF rec dks os1 Cons.prems(4)]
        obtain pre post c' p r' where ih: "ks = pre @ n # post" "map_of d1 n = Some (Optim c')"
          "map_of params n = Some p" "new_lr_after base ?nl (pre @ [n]) = Some r'"
          "ro (type c') p (AList.update ''lr'' (PFloat r') (opts c')) = Inr optim"
          "map_of d' n = Some (Optim (c'\<lparr>opts := AList.update ''lr'' (PFloat r') (opts c')\<rparr>))"
          by blast
        have "k # ks = (k # pre) @ n # post" using ih(1) by simp
        moreover have "map_of d n = Some (Optim c')" using ih(2) d1 False by (simp add: update_conv')
        moreover have "new_lr_after base nl ((k # pre) @ [n]) = Some r'" using ih(4) by simp
        ultimately show ?thesis using ih(3,5,6) by blast
      qed
    qed
  qed
qed

text \<open>With the rule off: the options are not touched and are passed on as they are.\<close>

lemma create_loop_plain_opts:
  "create_loop ro params None ks nl d os = ((d', os'), err) \<Longrightarrow> d' = d"
proof (induction ks arbitrary: os)
  case Nil
  then show ?case by simp
next
  case (Cons k ks)
  then show ?case by (cases "build_optim ro params d k") auto
qed

lemma create_loop_built_plain:
  assumes "create_loop ro params None ks nl d os = ((d', os'), err)"
    and "distinct ks" and "map_of os n = None" and "map_of os' n = Some optim"
  shows "\<exists>c p. n \<in> set ks \<and> map_of d n = Some (Optim c) \<and> map_of params n = Some p
           \<and> ro (type c) p (opts c) = Inr optim"
  using assms
proof (induction ks arbitrary: os)
  case Nil
  then show ?case by simp
next
  case (Cons k ks)
  from Cons.prems(2) have dks: "distinct ks" and kks: "k \<notin> set ks" by auto
  show ?case
  proof (cases "build_optim ro params d k")
    case (Inl e)
    with Cons.prems(1,3,4) show ?thesis by simp
  next
    case (Inr built)
    with Cons.prems(1)
    have rec: "create_loop ro params None ks nl d (AList.update k built os) = ((d', os'), err)"
      by simp
    show ?thesis
    proof (cases "n = k")
      case True
      from create_loop_frame [OF rec] kks True
      have fr: "map_of os' n = map_of (AList.update k built os) n" by auto
      with True Cons.prems(4) have ob: "built = optim" by (simp add: update_conv')
      from Inr obtain c p where "map_of d k = Some (Optim c)" "map_of params k = Some p"
          "ro (type c) p (opts c) = Inr built"
        by (auto simp: build_optim_def getitem_def split: option.splits cfg.splits)
      then show ?thesis using ob True by auto
    next
      case False
      then have os1: "map_of (AList.update k built os) n = None"
        using Cons.prems(3) by (simp add: update_conv')
      from Cons.IH [OF rec dks os1 Cons.prems(4)] show ?thesis by auto
    qed
  qed
qed

text \<open>Assigning the rate keeps an entry an optimizer entry and leaves the others alone.\<close>

lemma set_lr_Inr:
  assumes "map_of d k = Some (Optim c)"
  shows "set_lr (Some r) k d
           = Inr (AList.update k (Optim (c\<lparr>opts := AList.update ''lr'' (PFloat r) (opts c)\<rparr>)) d)"
  using assms by (simp add: set_lr_def)

lemma bind_new_lr_gen_dis:
  "k = ''gen'' \<or> k = ''dis'' \<Longrightarrow>
   bind_new_lr base k nl = Some (if k = ''gen'' then base / 2 else base * 2)"
  by (auto simp: bind_new_lr_def)

lemma bind_new_lr_bound:
  "bind_new_lr base k (Some r)
     = Some (if k = ''gen'' then base / 2 else if k = ''dis'' then base * 2 else r)"
  by (simp add: bind_new_lr_def)

text \<open>
  When every constructor call succeeds, every entry is an optimizer entry with parameters,
  and (with the rule on) the first component is \<open>gen\<close> or \<open>dis\<close>, the loop raises nothing
  and builds an optimizer for every entry.
\<close>

lemma create_loop_succeeds:
  assumes "\<forall>ty p os. \<exists>optim. ro ty p os = Inr optim"
    and "\<forall>n \<in> set ks. (\<exists>c. map_of d n = Some (Optim c)) \<and> (\<exists>p. map_of params n = Some p)"
    and "ttur \<noteq> None \<longrightarrow> (\<exists>r. nl = Some r) \<or> (ks \<noteq> [] \<longrightarrow> hd ks = ''gen'' \<or> hd ks = ''dis'')"
  shows "\<exists>d' os'. create_loop ro params ttur ks nl d os = ((d', os'), None)
           \<and> (\<forall>n \<in> set ks. map_of os' n \<noteq> None)"
  using assms(2,3)
proof (induction ks arbitrary: nl d os)
  case Nil
  then show ?case by simp
next
  case (Cons k ks)
  from Cons.prems(1) obtain c p where c: "map_of d k = Some (Optim c)"
    and p: "map_of params k = Some p" by auto
  define nl' where "nl' = (case ttur of None \<Rightarrow> nl | Some base \<Rightarrow> bind_new_lr base k nl)"
  have bound: "ttur \<noteq> None \<longrightarrow> (\<exists>r. nl' = Some r)"
  proof
    assume t: "ttur \<noteq> None"
    then obtain base where base: "ttur = Some base" by auto
    from Cons.prems(2) t have "(\<exists>r. nl = Some r) \<or> k = ''gen'' \<or> k = ''dis''" by simp
    then show "\<exists>r. nl' = Some r"
    proof
      assume "\<exists>r. nl = Some r"
      then obtain r where "nl = Some r" by blast
      with bind_new_lr_bound [of base k r] base show ?thesis by (simp add: nl'_def)
    next
      assume "k = ''gen'' \<or> k = ''dis''"
      from bind_new_lr_gen_dis [OF this] base show ?thesis by (simp add: nl'_def)
    qed
  qed
  have "\<exists>d1 c1. (case ttur of None \<Rightarrow> Inr d | Some base \<Rightarrow> set_lr nl' k d) = Inr d1
          \<and> map_of d1 k = Some (Optim c1) \<and> (\<forall>n. n \<noteq> k \<longrightarrow> map_of d1 n = map_of d n)"
  proof (cases ttur)
    case None
    with c show ?thesis by simp
  next
    case (Some base)
    with bound obtain r where r: "nl' = Some r" by auto
    show ?thesis
      using Some r set_lr_Inr [OF c, of r] by (simp add: update_conv')
  qed
  then obtain d1 c1 where d1: "(case ttur of None \<Rightarrow> Inr d | Some base \<Rightarrow> set_lr nl' k d) = Inr d1"
    and d1k: "map_of d1 k = Some (Optim c1)"
    and d1o: "\<forall>n. n \<noteq> k \<longrightarrow> map_of d1 n = map_of d n"
    by blast
  from assms(1) obtain built where b: "ro (type c1) p (opts c1) = Inr built" by blast
  have build: "build_optim ro params d1 k = Inr built"
    using d1k p b by (simp add: build_optim_def getitem_def)
  have pre1: "\<forall>n \<in> set ks. (\<exists>c. map_of d1 n = Some (Optim c)) \<and> (\<exists>p. map_of params n = Some p)"
  proof
    fix n assume n: "n \<in> set ks"
    with Cons.prems(1) have old: "(\<exists>c. map_of d n = Some (Optim c)) \<and> (\<exists>p. map_of params n = Some p)"
      by simp
    show "(\<exists>c. map_of d1 n = Some (Optim c)) \<and> (\<exists>p. map_of params n = Some p)"
    proof (cases "n = k")
      case True
      with d1k old show ?thesis by simp
    next
      case False
      with d1o old show ?thesis by simp
    qed
  qed
  have pre2: "ttur \<noteq> None \<longrightarrow> (\<exists>r. nl' = Some r) \<or> (ks \<noteq> [] \<longrightarrow> hd ks = ''gen'' \<or> hd ks = ''dis'')"
    using bound by simp
  from Cons.IH [OF pre1 pre2, of "AList.update k built os"]
  obtain d' os' where rec: "create_loop ro params ttur ks nl' d1 (AList.update k built os) = ((d', os'), None)"
    and all: "\<forall>n \<in> set ks. map_of os' n \<noteq> None" by blast
  have step: "create_loop ro params ttur (k # ks) nl d os = ((d', os'), None)"
    using d1 build rec unfolding nl'_def by (simp add: Let_def)
  have "map_of os' k \<noteq> None"
  proof (cases "k \<in> set ks")
    case True
    with all show ?thesis by simp
  next
    case False
    from create_loop_frame [OF rec False] show ?thesis by (simp add: update_conv')
  qed
  with step all show ?case by simp
qed

text \<open>The binding of \<open>new_lr\<close> left by a run of iterations is the rate of the last \<open>gen\<close> or
  \<open>dis\<close> among them.\<close>

lemma new_lr_after_snoc:
  "new_lr_after base nl (xs @ [x]) = bind_new_lr base x (new_lr_after base nl xs)"
  by (simp add: new_lr_after_append)

lemma new_lr_after_Some:
  "new_lr_after base None xs = Some r \<Longrightarrow>
   \<exists>pre1 g pre2. xs = pre1 @ g # pre2 \<and> (g = ''gen'' \<or> g = ''dis'')
      \<and> ''gen'' \<notin> set pre2 \<and> ''dis'' \<notin> set pre2
      \<and> r = (if g = ''gen'' then base / 2 else base * 2)"
proof (induction xs arbitrary: r rule: rev_induct)
  case Nil
  then show ?case by simp
next
  case (snoc x xs)
  show ?case
  proof (cases "x = ''gen'' \<or> x = ''dis''")
    case True
    with snoc.prems have "r = (if x = ''gen'' then base / 2 else base * 2)"
      by (auto simp: new_lr_after_snoc bind_new_lr_def)
    with True have "xs @ [x] = xs @ x # [] \<and> (x = ''gen'' \<or> x = ''dis'')
        \<and> ''gen'' \<notin> set [] \<and> ''dis'' \<notin> set [] \<and> r = (if x = ''gen'' then base / 2 else base * 2)"
      by simp
    then show ?thesis by blast
  next
    case False
    with snoc.prems have "new_lr_after base None xs = Some r"
      by (simp add: new_lr_after_snoc bind_new_lr_def)
    from snoc.IH [OF this] obtain pre1 g pre2 where
      "xs = pre1 @ g # pre2" "g = ''gen'' \<or> g = ''dis''" "''gen'' \<notin> set pre2" "''dis'' \<notin> set pre2"
      "r = (if g = ''gen'' then base / 2 else base * 2)" by blast
    with False have "xs @ [x] = pre1 @ g # (pre2 @ [x]) \<and> (g = ''gen'' \<or> g = ''dis'')
        \<and> ''gen'' \<notin> set (pre2 @ [x]) \<and> ''dis'' \<notin> set (pre2 @ [x])
        \<and> r = (if g = ''gen'' then base / 2 else base * 2)"
      by auto
    then show ?thesis by blast
  qed
qed

lemma distinct_split_unique:
  "distinct (pre @ n # post) \<Longrightarrow> pre @ n # post = pre' @ n # post' \<Longrightarrow> pre' = pre"
proof (induction pre arbitrary: pre')
  case Nil
  then show ?case by (cases pre') auto
next
  case (Cons x pre)
  show ?case
  proof (cases pre')
    case Nil
    with Cons.prems show ?thesis by auto
  next
    case c: (Cons y ys)
    from Cons.prems c have xy: "x = y" and eq: "pre @ n # post = ys @ n # post'" by auto
    from Cons.prems(1) have "distinct (pre @ n # post)" by simp
    from Cons.IH [OF this eq] xy c show ?thesis by simp
  qed
qed

lemma keys_delete_TTUR:
  "distinct (map fst d) \<Longrightarrow> distinct (map fst (AList.delete ''TTUR'' d))"
  by (simp add: delete_keys distinct_removeAll)

lemma lookup_delete_TTUR:
  "n \<in> set (map fst (AList.delete ''TTUR'' d)) \<Longrightarrow> map_of (AList.delete ''TTUR'' d) n = map_of d n"
proof -
  assume "n \<in> set (map fst (AList.delete ''TTUR'' d))"
  then have "n \<noteq> ''TTUR''" by (simp add: delete_keys)
  then show ?thesis by simp
qed

lemma built_key: "map_of os n = Some optim \<Longrightarrow> create_loop ro params ttur ks nl d [] = ((d', os), err)
   \<Longrightarrow> n \<in> set ks"
proof (rule ccontr)
  assume o: "map_of os n = Some optim" and run: "create_loop ro params ttur ks nl d [] = ((d', os), err)"
    and "n \<notin> set ks"
  from create_loop_frame [OF run this(3)] o show False by simp
qed

text \<open>The call, once \<open>TTUR\<close> is popped and the base rate read, is the loop.\<close>

lemma create_optimizer_loop:
  assumes "map_of opts_dict ''TTUR'' = Some (TTUR t)"
    and "if_ttur t \<longrightarrow> lr t \<noteq> None"
    and "create_optimizer ro a params opts_dict = ((a', d'), err)"
  shows "\<exists>os. create_loop ro params (if if_ttur t then lr t else None)
                 (map fst (AList.delete ''TTUR'' opts_dict)) None (AList.delete ''TTUR'' opts_dict) []
               = ((d', os), err)
           \<and> a' = a\<lparr>optim_lst := Some os\<rparr>"
  using assms by (auto simp: create_optimizer_def Let_def split: prod.splits)

lemma create_optimizer_on:
  assumes "distinct (map fst opts_dict)"
    and "map_of opts_dict ''TTUR'' = Some (TTUR t)"
    and "if_ttur t" and "lr t = Some L"
    and "create_optimizer ro a params opts_dict = ((a', d'), err)"
    and "optim_lst a' = Some os" and "map_of os n = Some optim"
    and "n = ''gen'' \<or> n = ''dis''"
  shows "\<exists>c p. map_of opts_dict n = Some (Optim c) \<and> map_of params n = Some p
           \<and> ro (type c) p (AList.update ''lr'' (PFloat (if n = ''gen'' then L / 2 else L * 2)) (opts c))
               = Inr optim
           \<and> map_of d' n = Some (Optim (c\<lparr>opts :=
                 AList.update ''lr'' (PFloat (if n = ''gen'' then L / 2 else L * 2)) (opts c)\<rparr>))"
proof -
  let ?d = "AList.delete ''TTUR'' opts_dict"
  let ?ks = "map fst ?d"
  from create_optimizer_loop [OF assms(2) _ assms(5)] assms(3,4,6)
  have run: "create_loop ro params (Some L) ?ks None ?d [] = ((d', os), err)" by auto
  have e: "map_of ([] :: (string \<times> 'a) list) n = None" by simp
  from create_loop_built_ttur [OF run keys_delete_TTUR [OF assms(1)] e assms(7)]
  obtain pre post c p r where s: "?ks = pre @ n # post" "map_of ?d n = Some (Optim c)"
    "map_of params n = Some p" "new_lr_after L None (pre @ [n]) = Some r"
    "ro (type c) p (AList.update ''lr'' (PFloat r) (opts c)) = Inr optim"
    "map_of d' n = Some (Optim (c\<lparr>opts := AList.update ''lr'' (PFloat r) (opts c)\<rparr>))"
    by blast
  from s(4) assms(8) have r: "r = (if n = ''gen'' then L / 2 else L * 2)"
    by (auto simp: new_lr_after_snoc bind_new_lr_def)
  from s(1) have "n \<in> set ?ks" by simp
  from lookup_delete_TTUR [OF this] s(2) have "map_of opts_dict n = Some (Optim c)" by simp
  with s(3,5,6) r show ?thesis by blast
qed

lemma create_optimizer_off:
  assumes "distinct (map fst opts_dict)"
    and "map_of opts_dict ''TTUR'' = Some (TTUR t)"
    and "\<not> if_ttur t"
    and "create_optimizer ro a params opts_dict = ((a', d'), err)"
  shows "d' = AList.delete ''TTUR'' opts_dict"
    and "optim_lst a' = Some os \<Longrightarrow> map_of os n = Some optim \<Longrightarrow>
         \<exists>c p. map_of opts_dict n = Some (Optim c) \<and> map_of params n = Some p
           \<and> ro (type c) p (opts c) = Inr optim"
proof -
  let ?d = "AList.delete ''TTUR'' opts_dict"
  let ?ks = "map fst ?d"
  from create_optimizer_loop [OF assms(2) _ assms(4)] assms(3)
  obtain os' where run: "create_loop ro params None ?ks None ?d [] = ((d', os'), err)"
    and a': "a' = a\<lparr>optim_lst := Some os'\<rparr>" by auto
  from create_loop_plain_opts [OF run] show "d' = ?d" .
  assume os: "optim_lst a' = Some os" and o: "map_of os n = Some optim"
  from os a' have "os' = os" by simp
  with run have run': "create_loop ro params None ?ks None ?d [] = ((d', os), err)" by simp
  have e: "map_of ([] :: (string \<times> 'a) list) n = None" by simp
  from create_loop_built_plain [OF run' keys_delete_TTUR [OF assms(1)] e o]
  obtain c p where s: "n \<in> set ?ks" "map_of ?d n = Some (Optim c)" "map_of params n = Some p"
    "ro (type c) p (opts c) = Inr optim" by blast
  from lookup_delete_TTUR [OF s(1)] s(2) have "map_of opts_dict n = Some (Optim c)" by simp
  with s(3,4) show "\<exists>c p. map_of opts_dict n = Some (Optim c) \<and> map_of params n = Some p
           \<and> ro (type c) p (opts c) = Inr optim" by blast
qed

lemma create_optimizer_succeeds:
  assumes "map_of opts_dict ''TTUR'' = Some (TTUR t)"
    and "if_ttur t \<longrightarrow> lr t \<noteq> None"
    and "create_optimizer ro a params opts_dict = ((a', d'), err)"
    and "\<forall>ty p os. \<exists>optim. ro ty p os = Inr optim"
    and "\<forall>n \<in> set (map fst opts_dict). n \<noteq> ''TTUR'' \<longrightarrow>
           (\<exists>c. map_of opts_dict n = Some (Optim c)) \<and> (\<exists>p. map_of params n = Some p)"
    and "if_ttur t \<longrightarrow> (\<forall>k rest. map fst (AList.delete ''TTUR'' opts_dict) = k # rest \<longrightarrow>
           k = ''gen'' \<or> k = ''dis'')"
  shows "err = None"
    and "n \<in> set (map fst opts_dict) \<Longrightarrow> n \<noteq> ''TTUR'' \<Longrightarrow>
         \<exists>os optim. optim_lst a' = Some os \<and> map_of os n = Some optim"
proof -
  let ?d = "AList.delete ''TTUR'' opts_dict"
  let ?ks = "map fst ?d"
  let ?t = "if if_ttur t then lr t else None"
  from create_optimizer_loop [OF assms(1,2,3)]
  obtain os where run: "create_loop ro params ?t ?ks None ?d [] = ((d', os), err)"
    and a': "a' = a\<lparr>optim_lst := Some os\<rparr>" by blast
  have h2: "\<forall>n \<in> set ?ks. (\<exists>c. map_of ?d n = Some (Optim c)) \<and> (\<exists>p. map_of params n = Some p)"
  proof
    fix n assume n: "n \<in> set ?ks"
    then have "n \<in> set (map fst opts_dict)" "n \<noteq> ''TTUR''" by (simp_all add: delete_keys)
    with assms(5) have "(\<exists>c. map_of opts_dict n = Some (Optim c)) \<and> (\<exists>p. map_of params n = Some p)"
      by blast
    with lookup_delete_TTUR [OF n]
    show "(\<exists>c. map_of ?d n = Some (Optim c)) \<and> (\<exists>p. map_of params n = Some p)" by simp
  qed
  have h3: "?t \<noteq> None \<longrightarrow> (\<exists>r. (None :: real option) = Some r)
              \<or> (?ks \<noteq> [] \<longrightarrow> hd ?ks = ''gen'' \<or> hd ?ks = ''dis'')"
  proof (rule impI, rule disjI2, rule impI)
    assume "?t \<noteq> None" and ne: "?ks \<noteq> []"
    then have en: "if_ttur t" by (simp split: if_splits)
    from ne obtain k rest where kr: "?ks = k # rest" by (cases ?ks) auto
    with assms(6) en have "k = ''gen'' \<or> k = ''dis''" by simp
    with kr show "hd ?ks = ''gen'' \<or> hd ?ks = ''dis''" by simp
  qed
  from create_loop_succeeds [OF assms(4) h2 h3, of "[]"] run
  have res: "err = None" "\<forall>n \<in> set ?ks. map_of os n \<noteq> None" by auto
  show "err = None" by (rule res(1))
  assume "n \<in> set (map fst opts_dict)" "n \<noteq> ''TTUR''"
  then have "n \<in> set ?ks" by (simp add: delete_keys)
  with res(2) a' show "\<exists>os optim. optim_lst a' = Some os \<and> map_of os n = Some optim" by auto
qed

text \<open>A first component that is neither \<open>gen\<close> nor \<open>dis\<close> stops the loop at once.\<close>

lemma create_loop_unbound_first:
  assumes "ks = k # rest" and "k \<noteq> ''gen''" and "k \<noteq> ''dis''"
  shows "create_loop ro params (Some L) ks None d [] = ((d, []), Some (UnboundLocalError ''new_lr''))"
  unfolding assms(1) using assms(2,3) by (simp add: bind_new_lr_def set_lr_def)


text \<open>The call on the two-component options, rule on and rule off.\<close>

lemma example_on:
  "create_optimizer recording_optimizer no_alg [(''gen'', 1), (''dis'', 2)] (example_opts True)
   = ((no_alg\<lparr>optim_lst := Some [(''gen'', ''Adam'', 1, [(''lr'', PFloat 2), (''wd'', PInt 0)]),
                                   (''dis'', ''SGD'', 2, [(''lr'', PFloat 8)])]\<rparr>,
       [(''gen'', Optim \<lparr>type = ''Adam'', opts = [(''lr'', PFloat 2), (''wd'', PInt 0)]\<rparr>),
        (''dis'', Optim \<lparr>type = ''SGD'', opts = [(''lr'', PFloat 8)]\<rparr>)]), None)"
  by (simp add: create_optimizer_def example_opts_def bind_new_lr_def set_lr_def build_optim_def
      getitem_def recording_optimizer_def)

lemma example_off:
  "create_optimizer recording_optimizer no_alg [(''gen'', 1), (''dis'', 2)] (example_opts False)
   = ((no_alg\<lparr>optim_lst := Some [(''gen'', ''Adam'', 1, [(''lr'', PFloat 1), (''wd'', PInt 0)]),
                                   (''dis'', ''SGD'', 2, [(''lr'', PFloat 3)])]\<rparr>,
       [(''gen'', Optim \<lparr>type = ''Adam'', opts = [(''lr'', PFloat 1), (''wd'', PInt 0)]\<rparr>),
        (''dis'', Optim \<lparr>type = ''SGD'', opts = [(''lr'', PFloat 3)]\<rparr>)]), None)"
  by (simp add: create_optimizer_def example_opts_def bind_new_lr_def set_lr_def build_optim_def
      getitem_def recording_optimizer_def)

lemma example_distinct: "distinct (map fst (example_opts on))"
  by (simp add: example_opts_def)

lemma example_ttur: "map_of (example_opts on) ''TTUR'' = Some (TTUR \<lparr>if_ttur = on, lr = Some 4\<rparr>)"
  by (simp add: example_opts_def)


text \<open>
  C10, as stated: with the rule enabled, a component named neither \<open>gen\<close> nor \<open>dis\<close>
  fails only when it is the first one iterated, and otherwise silently receives the rate
  of the \<open>gen\<close> or \<open>dis\<close> iterated before it. On the options below \<open>aux2\<close> is not the
  first component, with \<open>gen\<close> before it in the first run and with no \<open>gen\<close> or \<open>dis\<close>
  at all in the second; in both the call raises the unbound-local error at \<open>aux\<close> and
  no optimizer is built, so \<open>aux2\<close> receives no rate.
\<close>

theorem create_optimizer_ttur_later_component_unbound:
  "create_optimizer recording_optimizer no_alg [(''gen'', 1), (''aux'', 3), (''aux2'', 4)]
     (mid_opts True)
   = ((no_alg\<lparr>optim_lst := Some []\<rparr>,
       [(''aux'', Optim \<lparr>type = ''SGD'', opts = [(''lr'', PFloat 5)]\<rparr>),
        (''gen'', Optim \<lparr>type = ''Adam'', opts = [(''lr'', PFloat 1)]\<rparr>),
        (''aux2'', Optim \<lparr>type = ''SGD'', opts = [(''lr'', PFloat 6)]\<rparr>)]),
      Some (UnboundLocalError ''new_lr''))
   \<and> create_optimizer recording_optimizer no_alg [(''gen'', 1), (''aux'', 3), (''aux2'', 4)]
       (mid_opts False)
     = ((no_alg\<lparr>optim_lst := Some []\<rparr>,
         [(''aux'', Optim \<lparr>type = ''SGD'', opts = [(''lr'', PFloat 5)]\<rparr>),
          (''aux2'', Optim \<lparr>type = ''SGD'', opts = [(''lr'', PFloat 6)]\<rparr>)]),
        Some (UnboundLocalError ''new_lr''))
   \<and> map fst (AList.delete ''TTUR'' (mid_opts True)) = [''aux'', ''gen''] @ ''aux2'' # []
   \<and> map fst (AList.delete ''TTUR'' (mid_opts False)) = [''aux''] @ ''aux2'' # []"
  by (simp add: create_optimizer_def mid_opts_def bind_new_lr_def set_lr_def build_optim_def
      getitem_def recording_optimizer_def)

text \<open>
  C10, amended: with the rule enabled and a component \<open>n\<close> named neither \<open>gen\<close> nor
  \<open>dis\<close>: when the first component iterated (\<open>n\<close> itself or one before it) is neither
  \<open>gen\<close> nor \<open>dis\<close>, in particular when no \<open>gen\<close> or \<open>dis\<close> is iterated before \<open>n\<close>,
  the call raises the unbound-local error for \<open>new_lr\<close>, no optimizer has been built and
  the options are the caller's without \<open>TTUR\<close>; if an optimizer is built for \<open>n\<close>, it is
  constructed with the rate of the last \<open>gen\<close> or \<open>dis\<close> iterated before \<open>n\<close> (\<open>L / 2\<close>
  or \<open>L * 2\<close>), not with its own; and when the constructor never fails, all entries have
  options and parameters and the first component is \<open>gen\<close> or \<open>dis\<close>, the call raises
  nothing and does build the optimizer of \<open>n\<close>.
\<close>

theorem create_optimizer_ttur_other_component:
  assumes "distinct (map fst opts_dict)"
    and "map_of opts_dict ''TTUR'' = Some (TTUR t)" and "if_ttur t" and "lr t = Some L"
    and "create_optimizer ro a params opts_dict = ((a', d'), err)"
    and "map fst (AList.delete ''TTUR'' opts_dict) = pre @ n # post"
    and "n \<noteq> ''gen''" and "n \<noteq> ''dis''"
  shows "(hd (pre @ [n]) \<noteq> ''gen'' \<and> hd (pre @ [n]) \<noteq> ''dis'' \<longrightarrow>
            err = Some (UnboundLocalError ''new_lr'') \<and> optim_lst a' = Some []
            \<and> d' = AList.delete ''TTUR'' opts_dict)
       \<and> (''gen'' \<notin> set pre \<and> ''dis'' \<notin> set pre \<longrightarrow>
            err = Some (UnboundLocalError ''new_lr'') \<and> optim_lst a' = Some [])
       \<and> (optim_lst a' = Some os \<and> map_of os n = Some optim \<longrightarrow>
            (\<exists>pre1 g pre2 c p. pre = pre1 @ g # pre2 \<and> (g = ''gen'' \<or> g = ''dis'')
               \<and> ''gen'' \<notin> set pre2 \<and> ''dis'' \<notin> set pre2
               \<and> map_of opts_dict n = Some (Optim c) \<and> map_of params n = Some p
               \<and> ro (type c) p
                    (AList.update ''lr'' (PFloat (if g = ''gen'' then L / 2 else L * 2)) (opts c))
                  = Inr optim))
       \<and> ((\<forall>ty p os. \<exists>optim. ro ty p os = Inr optim)
            \<and> (\<forall>k \<in> set (map fst opts_dict). k \<noteq> ''TTUR'' \<longrightarrow>
                  (\<exists>c. map_of opts_dict k = Some (Optim c)) \<and> (\<exists>p. map_of params k = Some p))
            \<and> (\<exists>g rest. pre = g # rest \<and> (g = ''gen'' \<or> g = ''dis''))
           \<longrightarrow> err = None \<and> (\<exists>os optim. optim_lst a' = Some os \<and> map_of os n = Some optim))"
proof -
  let ?d = "AList.delete ''TTUR'' opts_dict"
  let ?ks = "map fst ?d"
  have l: "if_ttur t \<longrightarrow> lr t \<noteq> None" using assms(4) by simp
  from create_optimizer_loop [OF assms(2) l assms(5)] assms(3,4)
  obtain os' where run: "create_loop ro params (Some L) ?ks None ?d [] = ((d', os'), err)"
    and a': "a' = a\<lparr>optim_lst := Some os'\<rparr>" by auto
  have first: "err = Some (UnboundLocalError ''new_lr'') \<and> optim_lst a' = Some [] \<and> d' = ?d"
    if h: "hd (pre @ [n]) \<noteq> ''gen'' \<and> hd (pre @ [n]) \<noteq> ''dis''"
  proof -
    have ks: "?ks = hd (pre @ [n]) # tl (pre @ n # post)"
      using assms(6) by (cases pre) simp_all
    from h have 1: "hd (pre @ [n]) \<noteq> ''gen''" and 2: "hd (pre @ [n]) \<noteq> ''dis''"
      by (rule conjunct1, rule conjunct2)
    from run create_loop_unbound_first [OF ks 1 2, of ro params L ?d]
    have "d' = ?d" "os' = []" "err = Some (UnboundLocalError ''new_lr'')" by simp_all
    with a' show ?thesis by simp
  qed
  have none: "err = Some (UnboundLocalError ''new_lr'') \<and> optim_lst a' = Some []"
    if h: "''gen'' \<notin> set pre \<and> ''dis'' \<notin> set pre"
  proof -
    have "hd (pre @ [n]) \<in> set pre \<union> {n}" by (cases pre) simp_all
    with h assms(7,8) have "hd (pre @ [n]) \<noteq> ''gen'' \<and> hd (pre @ [n]) \<noteq> ''dis''"
      by (cases pre) auto
    from first [OF this] show ?thesis by simp
  qed
  have built: "\<exists>pre1 g pre2 c p. pre = pre1 @ g # pre2 \<and> (g = ''gen'' \<or> g = ''dis'')
               \<and> ''gen'' \<notin> set pre2 \<and> ''dis'' \<notin> set pre2
               \<and> map_of opts_dict n = Some (Optim c) \<and> map_of params n = Some p
               \<and> ro (type c) p
                    (AList.update ''lr'' (PFloat (if g = ''gen'' then L / 2 else L * 2)) (opts c))
                  = Inr optim"
    if h: "optim_lst a' = Some os \<and> map_of os n = Some optim"
  proof -
    from h a' have "os' = os" by simp
    with run have run': "create_loop ro params (Some L) ?ks None ?d [] = ((d', os), err)" by simp
    from h have o: "map_of os n = Some optim" by (rule conjunct2)
    have e: "map_of ([] :: (string \<times> 'a) list) n = None" by simp
    from create_loop_built_ttur [OF run' keys_delete_TTUR [OF assms(1)] e o]
    obtain pre' post' c p r where s: "?ks = pre' @ n # post'" "map_of ?d n = Some (Optim c)"
      "map_of params n = Some p" "new_lr_after L None (pre' @ [n]) = Some r"
      "ro (type c) p (AList.update ''lr'' (PFloat r) (opts c)) = Inr optim"
      by blast
    have dk: "distinct (pre @ n # post)"
      using keys_delete_TTUR [OF assms(1)] assms(6) by simp
    from s(1) assms(6) have "pre @ n # post = pre' @ n # post'" by simp
    from distinct_split_unique [OF dk this] have pp: "pre' = pre" .
    from s(4) assms(7,8) pp have "new_lr_after L None pre = Some r"
      by (simp add: new_lr_after_snoc bind_new_lr_def)
    from new_lr_after_Some [OF this]
    obtain pre1 g pre2 where g: "pre = pre1 @ g # pre2" "g = ''gen'' \<or> g = ''dis''"
      "''gen'' \<notin> set pre2" "''dis'' \<notin> set pre2" "r = (if g = ''gen'' then L / 2 else L * 2)"
      by blast
    from s(1) have "n \<in> set ?ks" by simp
    from lookup_delete_TTUR [OF this] s(2) have c: "map_of opts_dict n = Some (Optim c)" by simp
    from g c s(3,5) show ?thesis by blast
  qed
  have total: "err = None \<and> (\<exists>os optim. optim_lst a' = Some os \<and> map_of os n = Some optim)"
    if h: "(\<forall>ty p os. \<exists>optim. ro ty p os = Inr optim)
            \<and> (\<forall>k \<in> set (map fst opts_dict). k \<noteq> ''TTUR'' \<longrightarrow>
                  (\<exists>c. map_of opts_dict k = Some (Optim c)) \<and> (\<exists>p. map_of params k = Some p))
            \<and> (\<exists>g rest. pre = g # rest \<and> (g = ''gen'' \<or> g = ''dis''))"
  proof -
    from h have tot: "\<forall>ty p os. \<exists>optim. ro ty p os = Inr optim" by (rule conjunct1)
    from h have ok: "\<forall>k \<in> set (map fst opts_dict). k \<noteq> ''TTUR'' \<longrightarrow>
                  (\<exists>c. map_of opts_dict k = Some (Optim c)) \<and> (\<exists>p. map_of params k = Some p)"
      by (rule conjunct1 [OF conjunct2])
    from h obtain g rest where gr: "pre = g # rest" "g = ''gen'' \<or> g = ''dis''"
      by (elim conjE exE)
    have fst: "if_ttur t \<longrightarrow> (\<forall>k rest. ?ks = k # rest \<longrightarrow> k = ''gen'' \<or> k = ''dis'')"
      using assms(6) gr by simp
    have nk: "n \<in> set (map fst opts_dict)" "n \<noteq> ''TTUR''"
    proof -
      have "n \<in> set ?ks" using assms(6) by simp
      then show "n \<in> set (map fst opts_dict)" "n \<noteq> ''TTUR''" by (simp_all add: delete_keys)
    qed
    from create_optimizer_succeeds(1) [OF assms(2) l assms(5) tot ok fst]
    have 1: "err = None" .
    from create_optimizer_succeeds(2) [OF assms(2) l assms(5) tot ok fst nk]
    have 2: "\<exists>os optim. optim_lst a' = Some os \<and> map_of os n = Some optim" .
    from 1 2 show ?thesis by (rule conjI)
  qed
  show ?thesis
    apply (rule conjI, rule impI, erule first)
    apply (rule conjI, rule impI, erule none)
    apply (rule conjI, rule impI, erule built)
    apply (rule impI, erule total)
    done
qed

text \<open>The call with \<open>aux\<close> first, and with \<open>aux\<close> after \<open>gen\<close>.\<close>

lemma aux_first_run:
  "create_optimizer recording_optimizer no_alg [(''gen'', 1), (''aux'', 3)] (aux_opts True)
   = ((no_alg\<lparr>optim_lst := Some []\<rparr>,
       [(''aux'', Optim \<lparr>type = ''SGD'', opts = [(''lr'', PFloat 5)]\<rparr>),
        (''gen'', Optim \<lparr>type = ''Adam'', opts = [(''lr'', PFloat 1)]\<rparr>)]),
      Some (UnboundLocalError ''new_lr''))"
  by (simp add: create_optimizer_def aux_opts_def bind_new_lr_def set_lr_def build_optim_def
      getitem_def recording_optimizer_def)

lemma aux_last_run:
  "create_optimizer recording_optimizer no_alg [(''gen'', 1), (''aux'', 3)] (aux_opts False)
   = ((no_alg\<lparr>optim_lst := Some aux_built\<rparr>,
       [(''gen'', Optim \<lparr>type = ''Adam'', opts = [(''lr'', PFloat 2)]\<rparr>),
        (''aux'', Optim \<lparr>type = ''SGD'', opts = [(''lr'', PFloat 2)]\<rparr>)]), None)"
  by (simp add: create_optimizer_def aux_opts_def bind_new_lr_def set_lr_def build_optim_def
      getitem_def recording_optimizer_def aux_built_def)

lemma aux_distinct: "distinct (map fst (aux_opts b))"
  by (simp add: aux_opts_def)

lemma aux_ttur: "map_of (aux_opts b) ''TTUR'' = Some (TTUR \<lparr>if_ttur = True, lr = Some 4\<rparr>)"
  by (simp add: aux_opts_def)

text \<open>The call with \<open>aux\<close> first, \<open>gen\<close> second and \<open>aux2\<close> last.\<close>

lemma mid_run:
  "create_optimizer recording_optimizer no_alg [(''gen'', 1), (''aux'', 3), (''aux2'', 4)]
     (mid_opts True)
   = ((no_alg\<lparr>optim_lst := Some []\<rparr>,
       [(''aux'', Optim \<lparr>type = ''SGD'', opts = [(''lr'', PFloat 5)]\<rparr>),
        (''gen'', Optim \<lparr>type = ''Adam'', opts = [(''lr'', PFloat 1)]\<rparr>),
        (''aux2'', Optim \<lparr>type = ''SGD'', opts = [(''lr'', PFloat 6)]\<rparr>)]),
      Some (UnboundLocalError ''new_lr''))"
  by (simp add: create_optimizer_def mid_opts_def bind_new_lr_def set_lr_def build_optim_def
      getitem_def recording_optimizer_def)

lemma mid_distinct: "distinct (map fst (mid_opts b))"
  by (simp add: mid_opts_def)

lemma mid_ttur: "map_of (mid_opts b) ''TTUR'' = Some (TTUR \<lparr>if_ttur = True, lr = Some 4\<rparr>)"
  by (simp add: mid_opts_def)

theorem create_optimizer_ttur_other_component_witness:
  "(create_optimizer recording_optimizer no_alg [(''gen'', 1), (''aux'', 3), (''aux2'', 4)]
      (mid_opts True)
      = ((no_alg\<lparr>optim_lst := Some []\<rparr>,
          [(''aux'', Optim \<lparr>type = ''SGD'', opts = [(''lr'', PFloat 5)]\<rparr>),
           (''gen'', Optim \<lparr>type = ''Adam'', opts = [(''lr'', PFloat 1)]\<rparr>),
           (''aux2'', Optim \<lparr>type = ''SGD'', opts = [(''lr'', PFloat 6)]\<rparr>)]),
         Some (UnboundLocalError ''new_lr''))
    \<and> [(''aux'', Optim \<lparr>type = ''SGD'', opts = [(''lr'', PFloat 5)]\<rparr>),
        (''gen'', Optim \<lparr>type = ''Adam'', opts = [(''lr'', PFloat 1)]\<rparr>),
        (''aux2'', Optim \<lparr>type = ''SGD'', opts = [(''lr'', PFloat 6)]\<rparr>)]
       = AList.delete ''TTUR'' (mid_opts True))
   \<and> (\<exists>pre1 g pre2 c p. [''gen''] = pre1 @ g # pre2 \<and> (g = ''gen'' \<or> g = ''dis'')
         \<and> ''gen'' \<notin> set pre2 \<and> ''dis'' \<notin> set pre2
         \<and> map_of (aux_opts False) ''aux'' = Some (Optim c)
         \<and> map_of [(''gen'', 1), (''aux'', 3)] ''aux'' = Some p
         \<and> recording_optimizer (type c) p
              (AList.update ''lr'' (PFloat (if g = ''gen'' then 4 / 2 else 4 * 2)) (opts c))
            = Inr (''SGD'', 3, [(''lr'', PFloat 2)]))"
proof -
  have it: "if_ttur \<lparr>if_ttur = True, lr = Some 4\<rparr>" and l: "lr \<lparr>if_ttur = True, lr = Some 4\<rparr> = Some 4"
    by simp_all
  have k1: "map fst (AList.delete ''TTUR'' (mid_opts True)) = [''aux'', ''gen''] @ ''aux2'' # []"
    and k2: "map fst (AList.delete ''TTUR'' (aux_opts False)) = [''gen''] @ ''aux'' # []"
    by (simp_all add: mid_opts_def aux_opts_def)
  have n1: "''aux2'' \<noteq> ''gen''" and n2: "''aux2'' \<noteq> ''dis''"
    and m1: "''aux'' \<noteq> ''gen''" and m2: "''aux'' \<noteq> ''dis''" by simp_all
  have e: "hd ([''aux'', ''gen''] @ [''aux2'']) \<noteq> ''gen''
      \<and> hd ([''aux'', ''gen''] @ [''aux2'']) \<noteq> ''dis''" by simp
  have b: "optim_lst (no_alg\<lparr>optim_lst := Some aux_built\<rparr>) = Some aux_built
      \<and> map_of aux_built ''aux'' = Some (''SGD'', 3, [(''lr'', PFloat 2)])"
    by (simp add: aux_built_def)
  note t1 = create_optimizer_ttur_other_component
    [OF mid_distinct mid_ttur it l mid_run k1 n1 n2]
  note t2 = create_optimizer_ttur_other_component
    [OF aux_distinct aux_ttur it l aux_last_run k2 m1 m2]
  from t1 [THEN conjunct1, THEN mp, OF e, THEN conjunct2, THEN conjunct2]
  have 1: "[(''aux'', Optim \<lparr>type = ''SGD'', opts = [(''lr'', PFloat 5)]\<rparr>),
        (''gen'', Optim \<lparr>type = ''Adam'', opts = [(''lr'', PFloat 1)]\<rparr>),
        (''aux2'', Optim \<lparr>type = ''SGD'', opts = [(''lr'', PFloat 6)]\<rparr>)]
       = AList.delete ''TTUR'' (mid_opts True)" .
  from t2 [THEN conjunct2, THEN conjunct2, THEN conjunct1, THEN mp, OF b]
  have 2: "\<exists>pre1 g pre2 c p. [''gen''] = pre1 @ g # pre2 \<and> (g = ''gen'' \<or> g = ''dis'')
         \<and> ''gen'' \<notin> set pre2 \<and> ''dis'' \<notin> set pre2
         \<and> map_of (aux_opts False) ''aux'' = Some (Optim c)
         \<and> map_of [(''gen'', 1), (''aux'', 3)] ''aux'' = Some p
         \<and> recording_optimizer (type c) p
              (AList.update ''lr'' (PFloat (if g = ''gen'' then 4 / 2 else 4 * 2)) (opts c))
            = Inr (''SGD'', 3, [(''lr'', PFloat 2)])" .
  show ?thesis by (rule conjI [OF conjI [OF mid_run 1] 2])
qed

subsection \<open>Requested items that are missing\<close>

text \<open>
  When no file is at the path the loader raises and nothing is loaded. When a requested
  item is not in the record, or a \<open>sched_\<close> item names no scheduler of the live bundle,
  the lookup raises KeyError at that item; the items before it have been loaded by then.
\<close>

lemma load_items_append:
  "load_items lsd states if_dist a pre = (a1, None) \<Longrightarrow>
   load_items lsd states if_dist a (pre @ rest) = load_items lsd states if_dist a1 rest"
proof (induction pre arbitrary: a)
  case Nil
  then show ?case by simp
next
  case (Cons it pre)
  then show ?case by (cases "load_item lsd states if_dist a it") auto
qed

lemma load_state_no_file:
  "fs ckp_load_path = None \<Longrightarrow>
   load_state lsd fs a ckp_load_path reqs if_dist = (a, Inl (FileNotFoundError ckp_load_path))"
  by (simp add: load_state_def)

lemma load_state_not_in_record:
  assumes "fs ckp_load_path = Some states"
    and "load_items lsd states if_dist a pre = (a1, None)"
    and "map_of states req = None"
  shows "load_state lsd fs a ckp_load_path (pre @ req # post) if_dist = (a1, Inl (KeyError req))"
proof -
  from assms(3) have "load_item lsd states if_dist a1 req = Inl (KeyError req)"
    by (simp add: load_item_def getitem_def)
  with assms(1) show ?thesis
    by (simp add: load_state_def load_items_append [OF assms(2)])
qed

lemma load_state_not_in_bundle:
  assumes "fs ckp_load_path = Some states"
    and "load_items lsd states if_dist a pre = (a1, None)"
    and "map_of states req = Some x"
    and "\<not> contains ''module_'' req" and "\<not> contains ''optim_'' req" and "contains ''sched_'' req"
    and "sched_lst a1 = Some b" and "map_of b (drop 6 req) = None"
  shows "load_state lsd fs a ckp_load_path (pre @ req # post) if_dist
           = (a1, Inl (KeyError (drop 6 req)))"
proof -
  from assms(3-8) have "load_item lsd states if_dist a1 req = Inl (KeyError (drop 6 req))"
    by (simp add: load_item_def getitem_def load_into_def)
  with assms(1) show ?thesis
    by (simp add: load_state_def load_items_append [OF assms(2)])
qed

text \<open>
  C6: \<open>load_state\<close> should fail whenever a requested item is absent from the live
  bundle it belongs to. The branches of \<open>load_state\<close> test \<open>'optim_' in load_item\<close>
  before \<open>'sched_' in load_item\<close>, anywhere in the name, and then cut the first six
  characters off. So \<open>sched_optim_a\<close>, the key \<open>save_state\<close> writes for a scheduler named
  \<open>optim_a\<close>, is taken for an optimizer item: below, the scheduler bundle is empty, and
  instead of raising, the call loads the entry into the optimizer \<open>optim_a\<close> and returns
  the iteration.
\<close>

theorem load_state_scheduler_item_loaded_into_optimizer:
  "contains ''optim_'' ''sched_optim_a''
   \<and> drop 6 ''sched_optim_a'' = ''optim_a''
   \<and> load_state strict_load_state_dict
        [''ckp.pt'' \<mapsto> [(''iter'', IterVal 5),
                         (''sched_optim_a'', StateDict [(''state'', 9::int), (''param_groups'', 9)])]]
        \<lparr>module_lst = Some [],
         optim_lst = Some [(''optim_a'', [(''state'', 0), (''param_groups'', 0)])],
         sched_lst = Some []\<rparr>
        ''ckp.pt'' [''sched_optim_a''] False
      = (\<lparr>module_lst = Some [],
          optim_lst = Some [(''optim_a'', [(''state'', 9), (''param_groups'', 9)])],
          sched_lst = Some []\<rparr>,
         Inr (IterVal 5))"
  by (simp add: load_state_def load_item_def getitem_def load_into_def strict_load_state_dict_def)

subsection \<open>LPIPS: what the kernel is handed\<close>

text \<open>
  In image mode the array is reversed along its channel axis, scaled, and rearranged
  from \<open>(H, W, C)\<close> to \<open>(1, C, H, W)\<close>.
\<close>

lemma channels_map:
  "(\<And>px. length (f px) = length px) \<Longrightarrow> channels (map (map f) d) = channels d"
  by (cases d; cases "hd d") (auto simp: channels_def)

lemma to_bchw_nth:
  assumes "c < channels d" and "h < length d" and "w < length (d ! h)"
  shows "to_bchw d ! 0 ! c ! h ! w = d ! h ! w ! c"
  using assms by (simp add: to_bchw_def)

lemma preprocess_im:
  "\<exists>t. preprocess inp ''im'' = Some (T4 [t]) \<and> length t = channels (data inp)
     \<and> (\<forall>c h w. c < channels (data inp) \<and> h < length (data inp) \<and> w < length (data inp ! h)
            \<and> length (data inp ! h ! w) = channels (data inp) \<longrightarrow>
          t ! c ! h ! w = data inp ! h ! w ! (channels (data inp) - 1 - c) / 127.5 - 1)"
proof -
  let ?d = "data inp"
  let ?g = "\<lambda>v::real. v / (255 / 2) - 1"
  let ?im = "map (map (map ?g)) (map (map rev) ?d)"
  let ?t = "map (\<lambda>c. map (\<lambda>row. map (\<lambda>px. px ! c) row) ?im) [0..<channels ?im]"
  have ch1: "channels (map (map rev) ?d) = channels ?d" by (rule channels_map) simp
  have ch: "channels ?im = channels ?d" using channels_map [of "map ?g" "map (map rev) ?d"] ch1
    by simp
  have p: "preprocess inp ''im'' = Some (T4 [?t])"
    by (simp add: preprocess_def to_bchw_def Let_def)
  have len: "length ?t = channels ?d" using ch by simp
  have pt: "?t ! c ! h ! w = ?d ! h ! w ! (channels ?d - 1 - c) / 127.5 - 1"
    if "c < channels ?d" "h < length ?d" "w < length (?d ! h)"
       "length (?d ! h ! w) = channels ?d" for c h w
  proof -
    from that(1) ch have "?t ! c = map (\<lambda>row. map (\<lambda>px. px ! c) row) ?im" by simp
    with that(2,3) have "?t ! c ! h ! w = map ?g (rev (?d ! h ! w)) ! c" by simp
    also from that(1,4) have "\<dots> = ?g (rev (?d ! h ! w) ! c)" by simp
    also from that(1,4) have "rev (?d ! h ! w) ! c = ?d ! h ! w ! (channels ?d - 1 - c)"
      by (simp add: rev_nth)
    finally show ?thesis by simp
  qed
  from p len pt show ?thesis by blast
qed



lemma bgr_pixel_shape:
  "dtype bgr_pixel = UInt8" "channels (data bgr_pixel) = 3"
  "(0::nat) < channels (data bgr_pixel) \<and> (0::nat) < length (data bgr_pixel)
     \<and> (0::nat) < length (data bgr_pixel ! 0)
     \<and> length (data bgr_pixel ! 0 ! 0) = channels (data bgr_pixel)"
  "(2::nat) < channels (data bgr_pixel) \<and> (0::nat) < length (data bgr_pixel)
     \<and> (0::nat) < length (data bgr_pixel ! 0)
     \<and> length (data bgr_pixel ! 0 ! 0) = channels (data bgr_pixel)"
  by (simp_all add: bgr_pixel_def channels_def)


end
